theory Spec2Isabelle
  imports Complex_Main "HOL-Library.Log_Nat" "HOL-Library.Multiset"
begin

section \<open>The arithmetic of the C type \<open>double\<close>\<close>

text \<open>
  \<^verbatim>\<open>dda.h\<close> computes on \<^verbatim>\<open>double\<close>. The model below is IEEE 754 binary64 with the
  default rounding (to nearest, ties to even), every operation carried out in binary64
  and rounded on its own, as a C implementation with \<^verbatim>\<open>FLT_EVAL_METHOD\<close> 0 does.
  A finite number is a sign, a significand \<open>m\<close> and an exponent \<open>e\<close>, standing for
  \<open>\<plusminus> m * 2 ^ e\<close>; in a number of the format \<open>m < 2 ^ 53\<close> and \<open>- 1074 \<le> e \<le> 971\<close>, and
  \<open>m\<close> fills all 53 bits unless \<open>e\<close> is the least exponent (subnormal numbers and
  zero). Both zeros, both infinities and one NaN are values of the type. The operations
  are defined the way the standard does: the exact result, rounded.
\<close>

datatype double = Finite (negative: bool) (significand: nat) (exponent: int)
  | Infinity bool
  | NaN

definition well_formed :: "double \<Rightarrow> bool" where
  "well_formed x = (case x of
      Finite s m e \<Rightarrow> m < 2 ^ 53 \<and> - 1074 \<le> e \<and> e \<le> 971 \<and> (2 ^ 52 \<le> m \<or> e = - 1074)
    | Infinity s \<Rightarrow> True
    | NaN \<Rightarrow> True)"

text \<open>The real number a finite double stands for (0 for the values that stand for none).\<close>

definition valof :: "double \<Rightarrow> real" where
  "valof x = (case x of
      Finite s m e \<Rightarrow> (if s then - 1 else 1) * real m * 2 powi e
    | Infinity s \<Rightarrow> 0
    | NaN \<Rightarrow> 0)"

definition zero :: "bool \<Rightarrow> double" where
  "zero s = Finite s 0 (- 1074)"

definition is_zero :: "double \<Rightarrow> bool" where
  "is_zero x = (case x of Finite s m e \<Rightarrow> m = 0 | Infinity s \<Rightarrow> False | NaN \<Rightarrow> False)"

text \<open>
  Some numbers, named: \<open>1.\<close>, \<open>2.\<close> (the constant of the trapezoidal rule), \<open>3.\<close>, \<open>4.\<close>,
  \<open>6.\<close>, \<open>8.\<close> and \<open>10.\<close>.
\<close>

definition one :: double where
  "one = Finite False (2 ^ 52) (- 52)"

definition two :: double where
  "two = Finite False (2 ^ 52) (- 51)"

definition three :: double where
  "three = Finite False (3 * 2 ^ 51) (- 51)"

definition four :: double where
  "four = Finite False (2 ^ 52) (- 50)"

definition six :: double where
  "six = Finite False (3 * 2 ^ 51) (- 50)"

definition eight :: double where
  "eight = Finite False (2 ^ 52) (- 49)"

definition ten :: double where
  "ten = Finite False (5 * 2 ^ 50) (- 49)"

text \<open>
  \<open>- 2 ^ 53\<close>: the double next below it is \<open>- 2 ^ 53 - 2\<close>, and \<open>- 2 ^ 53 - 1\<close>, half way
  between the two, rounds to \<open>- 2 ^ 53\<close>.
\<close>

definition minus_two_53 :: double where
  "minus_two_53 = Finite True (2 ^ 52) 1"

text \<open>\<open>DBL_MAX\<close>, the greatest finite double: \<open>(2 ^ 53 - 1) * 2 ^ 971\<close>.\<close>

definition dbl_max :: double where
  "dbl_max = Finite False 9007199254740991 971"

text \<open>The double next below \<open>DBL_MAX\<close>, \<open>(2 ^ 53 - 2) * 2 ^ 971\<close>, and \<open>0.5\<close>.\<close>

definition below_dbl_max :: double where
  "below_dbl_max = Finite False 9007199254740990 971"

definition half :: double where
  "half = Finite False (2 ^ 52) (- 53)"

text \<open>
  \<open>2 ^ 54 - 4\<close> and \<open>2 ^ 54 - 2\<close>, two neighbours among the doubles between \<open>2 ^ 53\<close> and
  \<open>2 ^ 54\<close>, which lie 2 apart; their sum \<open>2 ^ 55 - 6\<close> is half way between two doubles.
\<close>

definition two_54_less_4 :: double where
  "two_54_less_4 = Finite False 9007199254740990 1"

definition two_54_less_2 :: double where
  "two_54_less_2 = Finite False 9007199254740991 1"

subsection \<open>Rounding\<close>

text \<open>
  \<open>flog2_frac P Q\<close> is the integer \<open>k\<close> with \<open>2 ^ k \<le> P / Q < 2 ^ (k + 1)\<close>, found from the
  bit lengths of \<open>P\<close> and \<open>Q\<close> and one comparison.
\<close>

definition flog2_frac :: "nat \<Rightarrow> nat \<Rightarrow> int" where
  "flog2_frac P Q = (let k0 = int (floorlog 2 P) - int (floorlog 2 Q) in
     if (if 0 \<le> k0 then Q * 2 ^ nat k0 \<le> P else Q \<le> P * 2 ^ nat (- k0)) then k0 else k0 - 1)"

text \<open>\<open>rne num den\<close> is the integer nearest to \<open>num / den\<close>, the even one of two at a tie.\<close>

definition rne :: "nat \<Rightarrow> nat \<Rightarrow> nat" where
  "rne num den = (let f = num div den; r = num mod den in
     if 2 * r < den then f else if den < 2 * r then f + 1 else if even f then f else f + 1)"

text \<open>\<open>rne_scaled P Q d\<close> is the integer nearest to \<open>P / Q * 2 ^ d\<close>, ties to even.\<close>

definition rne_scaled :: "nat \<Rightarrow> nat \<Rightarrow> int \<Rightarrow> nat" where
  "rne_scaled P Q d = (if 0 \<le> d then rne (P * 2 ^ nat d) Q else rne P (Q * 2 ^ nat (- d)))"

text \<open>
  \<open>round_pos s P Q E\<close> rounds the positive number \<open>P / Q * 2 ^ E\<close> to a double of sign \<open>s\<close>:
  the exponent \<open>q\<close> of the last place follows from the magnitude (never below \<open>- 1074\<close>),
  the quotient by \<open>2 ^ q\<close> is rounded to an integer, a carry out of 53 bits moves one
  exponent up, and a result beyond the greatest exponent is an infinity.
\<close>

definition round_pos :: "bool \<Rightarrow> nat \<Rightarrow> nat \<Rightarrow> int \<Rightarrow> double" where
  "round_pos s P Q E = (let k = flog2_frac P Q + E;
       q = max k (- 1022) - 52;
       n = rne_scaled P Q (E - q);
       m = (if n = 2 ^ 53 then 2 ^ 52 else n);
       e = (if n = 2 ^ 53 then q + 1 else q)
     in if 971 < e then Infinity s else Finite s m e)"

subsection \<open>The four operations\<close>

fun fneg :: "double \<Rightarrow> double" where
  "fneg (Finite s m e) = Finite (\<not> s) m e"
| "fneg (Infinity s) = Infinity (\<not> s)"
| "fneg NaN = NaN"

fun fadd :: "double \<Rightarrow> double \<Rightarrow> double" where
  "fadd NaN y = NaN"
| "fadd x NaN = NaN"
| "fadd (Infinity s) (Infinity t) = (if s = t then Infinity s else NaN)"
| "fadd (Infinity s) (Finite t n f) = Infinity s"
| "fadd (Finite s m e) (Infinity t) = Infinity t"
| "fadd (Finite s m e) (Finite t n f) =
     (let g = min e f;
          a = (if s then - 1 else 1) * int (m * 2 ^ nat (e - g));
          b = (if t then - 1 else 1) * int (n * 2 ^ nat (f - g))
      in if a + b = 0 then zero (s \<and> t) else round_pos (a + b < 0) (nat \<bar>a + b\<bar>) 1 g)"

definition fsub :: "double \<Rightarrow> double \<Rightarrow> double" where
  "fsub x y = fadd x (fneg y)"

fun fmul :: "double \<Rightarrow> double \<Rightarrow> double" where
  "fmul NaN y = NaN"
| "fmul x NaN = NaN"
| "fmul (Infinity s) (Infinity t) = Infinity (s \<noteq> t)"
| "fmul (Infinity s) (Finite t n f) = (if n = 0 then NaN else Infinity (s \<noteq> t))"
| "fmul (Finite s m e) (Infinity t) = (if m = 0 then NaN else Infinity (s \<noteq> t))"
| "fmul (Finite s m e) (Finite t n f) =
     (if m * n = 0 then zero (s \<noteq> t) else round_pos (s \<noteq> t) (m * n) 1 (e + f))"

fun fdiv :: "double \<Rightarrow> double \<Rightarrow> double" where
  "fdiv NaN y = NaN"
| "fdiv x NaN = NaN"
| "fdiv (Infinity s) (Infinity t) = NaN"
| "fdiv (Infinity s) (Finite t n f) = Infinity (s \<noteq> t)"
| "fdiv (Finite s m e) (Infinity t) = zero (s \<noteq> t)"
| "fdiv (Finite s m e) (Finite t n f) =
     (if n = 0 then (if m = 0 then NaN else Infinity (s \<noteq> t))
      else if m = 0 then zero (s \<noteq> t)
      else round_pos (s \<noteq> t) m n (e - f))"

text \<open>
  \<open>same_number x y\<close>: the same double, the two zeros taken as one number (what \<open>==\<close> of C
  says of numbers).
\<close>

definition same_number :: "double \<Rightarrow> double \<Rightarrow> bool" where
  "same_number x y = (x = y \<or> is_zero x \<and> is_zero y)"

text \<open>
  \<open>representable r\<close>: the real number \<open>r\<close> is a finite double. An operation whose exact result
  is representable returns that result: it neither rounds nor overflows.
\<close>

definition representable :: "real \<Rightarrow> bool" where
  "representable r = (\<exists>x. well_formed x \<and> is_Finite x \<and> valof x = r)"

text \<open>
  A double compared with a real number, the infinities taken as the least and the greatest
  number: \<open>at_most x r\<close> says that \<open>x\<close> is \<open>- \<infinity>\<close> or a finite number not above \<open>r\<close>, and
  \<open>at_least x r\<close> that \<open>x\<close> is \<open>+ \<infinity>\<close> or a finite number not below \<open>r\<close>. NaN is neither.
\<close>

definition at_most :: "double \<Rightarrow> real \<Rightarrow> bool" where
  "at_most x r = (x = Infinity True \<or> is_Finite x \<and> valof x \<le> r)"

definition at_least :: "double \<Rightarrow> real \<Rightarrow> bool" where
  "at_least x r = (x = Infinity False \<or> is_Finite x \<and> r \<le> valof x)"

section \<open>The integration step\<close>

text \<open>
  \<^verbatim>\<open>void __integrate(double *i, double y, double dx, double *y_old)\<close> writes through its
  two pointers. The memory is a store from addresses to doubles; \<open>i\<close> and \<open>y_old\<close> are
  addresses of objects that exist, and nothing keeps a caller from passing the same one
  twice. The function has two texts, chosen by the preprocessor: the trapezoidal rule
  with \<^verbatim>\<open>TRAPEZ\<close> defined, the Euler rule with neither \<^verbatim>\<open>TRAPEZ\<close> nor \<^verbatim>\<open>RK\<close> defined. With
  \<^verbatim>\<open>RK\<close> defined and \<^verbatim>\<open>TRAPEZ\<close> not, the branch is empty and the header defines no
  function at all.
\<close>

type_synonym addr = nat

type_synonym store = "addr \<Rightarrow> double"

text \<open>\<^verbatim>\<open>*i -= y * dx;\<close>\<close>

definition integrate_euler :: "store \<Rightarrow> addr \<Rightarrow> double \<Rightarrow> double \<Rightarrow> addr \<Rightarrow> store" where
  "integrate_euler h i y dx y_old = h(i := fsub (h i) (fmul y dx))"

text \<open>\<^verbatim>\<open>*i -= (y + *y_old) / 2. * dx;  *y_old = y;\<close>\<close>

definition integrate_trapez :: "store \<Rightarrow> addr \<Rightarrow> double \<Rightarrow> double \<Rightarrow> addr \<Rightarrow> store" where
  "integrate_trapez h i y dx y_old =
     (let h1 = h(i := fsub (h i) (fmul (fdiv (fadd y (h y_old)) two) dx))
      in h1(y_old := y))"

text \<open>
  \<^verbatim>\<open>#ifdef TRAPEZ\<close> \<dots> \<^verbatim>\<open>#elif defined RK\<close> \<^verbatim>\<open>#else\<close> \<dots> \<^verbatim>\<open>#endif\<close>: what a translation unit that
  includes the header gets as \<^verbatim>\<open>__integrate\<close>, for each way of defining the two macros.
  \<^verbatim>\<open>TRAPEZ\<close> is asked first; under \<^verbatim>\<open>RK\<close> alone there is no text, hence no function (\<open>None\<close>).
  What becomes of a program that calls \<^verbatim>\<open>__integrate\<close> then is decided by the compiler and
  the linker; the header says nothing about it.
\<close>

definition integrate ::
  "bool \<Rightarrow> bool \<Rightarrow> (store \<Rightarrow> addr \<Rightarrow> double \<Rightarrow> double \<Rightarrow> addr \<Rightarrow> store) option" where
  "integrate TRAPEZ RK =
     (if TRAPEZ then Some integrate_trapez else if RK then None else Some integrate_euler)"

text \<open>A store that holds \<open>+0\<close> everywhere, to build concrete stores from.\<close>

definition blank :: store where
  "blank = (\<lambda>a. zero False)"

text \<open>
  Successive calls. The loop that calls \<^verbatim>\<open>__integrate\<close> is the caller's and not part of
  \<^verbatim>\<open>dda.h\<close>; a run of it is one call for each pair of a sample and a step size, in
  order, on the same two addresses.
\<close>

fun euler_steps :: "store \<Rightarrow> addr \<Rightarrow> addr \<Rightarrow> (double \<times> double) list \<Rightarrow> store" where
  "euler_steps h i y_old [] = h"
| "euler_steps h i y_old ((y, dx) # ps) =
     euler_steps (integrate_euler h i y dx y_old) i y_old ps"

fun trapez_steps :: "store \<Rightarrow> addr \<Rightarrow> addr \<Rightarrow> (double \<times> double) list \<Rightarrow> store" where
  "trapez_steps h i y_old [] = h"
| "trapez_steps h i y_old ((y, dx) # ps) =
     trapez_steps (integrate_trapez h i y dx y_old) i y_old ps"

subsection \<open>The same statements over exact real arithmetic\<close>

text \<open>
  The two bodies read with \<open>-\<close>, \<open>+\<close>, \<open>*\<close> and \<open>/\<close> of the real numbers: what the rules
  compute when no operation rounds.
\<close>

type_synonym rstore = "addr \<Rightarrow> real"

definition integrate_euler_exact :: "rstore \<Rightarrow> addr \<Rightarrow> real \<Rightarrow> real \<Rightarrow> addr \<Rightarrow> rstore" where
  "integrate_euler_exact h i y dx y_old = h(i := h i - y * dx)"

definition integrate_trapez_exact :: "rstore \<Rightarrow> addr \<Rightarrow> real \<Rightarrow> real \<Rightarrow> addr \<Rightarrow> rstore" where
  "integrate_trapez_exact h i y dx y_old =
     (let h1 = h(i := h i - (y + h y_old) / 2 * dx)
      in h1(y_old := y))"

fun euler_steps_exact :: "rstore \<Rightarrow> addr \<Rightarrow> addr \<Rightarrow> (real \<times> real) list \<Rightarrow> rstore" where
  "euler_steps_exact h i y_old [] = h"
| "euler_steps_exact h i y_old ((y, dx) # ps) =
     euler_steps_exact (integrate_euler_exact h i y dx y_old) i y_old ps"

fun trapez_steps_exact :: "rstore \<Rightarrow> addr \<Rightarrow> addr \<Rightarrow> (real \<times> real) list \<Rightarrow> rstore" where
  "trapez_steps_exact h i y_old [] = h"
| "trapez_steps_exact h i y_old ((y, dx) # ps) =
     trapez_steps_exact (integrate_trapez_exact h i y dx y_old) i y_old ps"

definition blank_exact :: rstore where
  "blank_exact = (\<lambda>a. 0)"

text \<open>
  The numbers that a list of samples and step sizes stands for, and the lists in which all
  of them are finite.
\<close>

definition values_of :: "(double \<times> double) list \<Rightarrow> (real \<times> real) list" where
  "values_of ps = map (\<lambda>(y, dx). (valof y, valof dx)) ps"

definition finite_pairs :: "(double \<times> double) list \<Rightarrow> bool" where
  "finite_pairs ps = list_all (\<lambda>(y, dx). is_Finite y \<and> is_Finite dx) ps"

text \<open>
  A run in which no operation rounds: the exact result of every operation of every call,
  in the order in which the body computes them (for the Euler text the product and the
  difference; for the trapezoidal text the sum, its half, the product and the
  difference), is representable.
\<close>

fun euler_no_rounding :: "rstore \<Rightarrow> addr \<Rightarrow> addr \<Rightarrow> (real \<times> real) list \<Rightarrow> bool" where
  "euler_no_rounding h i y_old [] = True"
| "euler_no_rounding h i y_old ((y, dx) # ps) =
     (representable (y * dx) \<and> representable (h i - y * dx) \<and>
      euler_no_rounding (integrate_euler_exact h i y dx y_old) i y_old ps)"

fun trapez_no_rounding :: "rstore \<Rightarrow> addr \<Rightarrow> addr \<Rightarrow> (real \<times> real) list \<Rightarrow> bool" where
  "trapez_no_rounding h i y_old [] = True"
| "trapez_no_rounding h i y_old ((y, dx) # ps) =
     (representable (y + h y_old) \<and> representable ((y + h y_old) / 2) \<and>
      representable ((y + h y_old) / 2 * dx) \<and>
      representable (h i - (y + h y_old) / 2 * dx) \<and>
      trapez_no_rounding (integrate_trapez_exact h i y dx y_old) i y_old ps)"

subsection \<open>A linear signal and its integral\<close>

text \<open>
  The signal \<open>f t = \<alpha> + \<beta> * t\<close>, observed from time \<open>t\<close> on at the end of each step of a
  list of step sizes: the call for a step of size \<open>d\<close> that ends at time \<open>t + d\<close> gets the
  sample \<open>f (t + d)\<close>, so that the trapezoidal text averages the values of \<open>f\<close> at the two
  ends of the step. \<open>linear_integral \<alpha> \<beta> t0 t1\<close> is the integral of \<open>f\<close> from \<open>t0\<close> to \<open>t1\<close> in
  closed form.
\<close>

fun linear_samples :: "real \<Rightarrow> real \<Rightarrow> real \<Rightarrow> real list \<Rightarrow> (real \<times> real) list" where
  "linear_samples \<alpha> \<beta> t [] = []"
| "linear_samples \<alpha> \<beta> t (d # ds) = (\<alpha> + \<beta> * (t + d), d) # linear_samples \<alpha> \<beta> (t + d) ds"

definition linear_integral :: "real \<Rightarrow> real \<Rightarrow> real \<Rightarrow> real \<Rightarrow> real" where
  "linear_integral \<alpha> \<beta> t0 t1 = \<alpha> * (t1 - t0) + \<beta> * (t1\<^sup>2 - t0\<^sup>2) / 2"

text \<open>
  The absolute error of a double against a real number; a result that is no finite
  number has no finite error (\<open>None\<close>), and that is more than every finite error.
\<close>

definition abs_error :: "double \<Rightarrow> real \<Rightarrow> real option" where
  "abs_error r x = (if is_Finite r then Some \<bar>valof r - x\<bar> else None)"

definition error_le :: "real option \<Rightarrow> real option \<Rightarrow> bool" where
  "error_le a b = (case b of None \<Rightarrow> True
     | Some v \<Rightarrow> (case a of None \<Rightarrow> False | Some u \<Rightarrow> u \<le> v))"

section \<open>Evaluating the arithmetic\<close>

lemma floorlog2_0: "floorlog 2 0 = 0"
  by (simp add: floorlog_def)

lemma floorlog2_Suc0: "floorlog 2 (Suc 0) = 1"
  by (subst compute_floorlog) (simp add: floorlog2_0)

lemma floorlog2_1: "floorlog 2 1 = 1"
  using floorlog2_Suc0 by simp

lemma floorlog2_numeral: "floorlog 2 (numeral k) = floorlog 2 (numeral k div 2) + 1"
  by (subst compute_floorlog) simp

lemmas arith_eval = zero_def one_def two_def three_def four_def six_def eight_def ten_def
  minus_two_53_def dbl_max_def below_dbl_max_def half_def fsub_def round_pos_def
  flog2_frac_def rne_def rne_scaled_def Let_def
  floorlog2_0 floorlog2_Suc0 floorlog2_1 floorlog2_numeral

lemma one_times_one: "fmul one one = one"
  by (simp add: arith_eval)

lemma one_minus_one: "fsub one one = zero False"
  by (simp add: arith_eval)

lemma three_plus_one: "fadd three one = four"
  by (simp add: arith_eval)

lemma four_half: "fdiv four two = two"
  by (simp add: arith_eval)

lemma two_times_one: "fmul two one = two"
  by (simp add: arith_eval)

lemma three_minus_one: "fsub three one = two"
  by (simp add: arith_eval)

lemma two_minus_two: "fsub two two = zero False"
  by (simp add: arith_eval)

lemma one_minus_two: "fsub one two = fneg one"
  by (simp add: arith_eval)

section \<open>Properties of the arithmetic\<close>

text \<open>
  What the proofs below need of the rounding: the exponent it finds is the binary order
  of magnitude, a number of the format is returned as it is, the result is always a
  number of the format, and a result is an infinity or finite according to its size.
\<close>

lemma p2_pos: "0 < (2::real) powi a"
  by simp

lemma p2_add: "(2::real) powi (a + b) = 2 powi a * 2 powi b"
  by (simp add: power_int_add)

lemma p2_diff: "(2::real) powi (a - b) = 2 powi a / 2 powi b"
  by (simp add: power_int_diff)

lemma p2_nat: "0 \<le> a \<Longrightarrow> (2::real) powi a = 2 ^ nat a"
  by (simp add: power_int_def)

lemma p2_neg: "a \<le> 0 \<Longrightarrow> (2::real) powi a = 1 / 2 ^ nat (- a)"
  by (simp add: power_int_def field_simps)

lemma flog2_unique:
  fixes v :: real
  assumes "2 powi k \<le> v" "v < 2 powi (k + 1)" "2 powi j \<le> v" "v < 2 powi (j + 1)"
  shows "k = j"
proof (rule ccontr)
  assume "k \<noteq> j"
  then consider "k + 1 \<le> j" | "j + 1 \<le> k" by linarith
  then show False
  proof cases
    case 1
    then have "(2::real) powi (k + 1) \<le> 2 powi j"
      by (intro power_int_increasing) auto
    with assms show False by linarith
  next
    case 2
    then have "(2::real) powi (j + 1) \<le> 2 powi k"
      by (intro power_int_increasing) auto
    with assms show False by linarith
  qed
qed

lemma floorlog2_real_bounds:
  assumes "0 < P"
  shows "2 powi (int (floorlog 2 P) - 1) \<le> real P" "real P < 2 powi (int (floorlog 2 P))"
proof -
  have b: "2 ^ (floorlog 2 P - 1) \<le> P" "P < 2 ^ floorlog 2 P"
    using floorlog_bounds [of P 2] assms by auto
  have pos: "0 < floorlog 2 P"
    using b(2) assms by (cases "floorlog 2 P = 0") auto
  then have e: "int (floorlog 2 P) - 1 = int (floorlog 2 P - 1)" by simp
  have "real (2 ^ (floorlog 2 P - 1)) \<le> real P"
    using b(1) of_nat_le_iff by blast
  then show "2 powi (int (floorlog 2 P) - 1) \<le> real P"
    by (simp add: e)
  have "real P < real (2 ^ floorlog 2 P)"
    using b(2) of_nat_less_iff by blast
  then show "real P < 2 powi (int (floorlog 2 P))"
    by simp
qed

lemma flog2_frac_bounds:
  assumes "0 < P" "0 < Q"
  shows "2 powi (flog2_frac P Q) * real Q \<le> real P"
    and "real P < 2 powi (flog2_frac P Q + 1) * real Q"
proof -
  define k0 where "k0 = int (floorlog 2 P) - int (floorlog 2 Q)"
  define c where "c = (if 0 \<le> k0 then Q * 2 ^ nat k0 \<le> P else Q \<le> P * 2 ^ nat (- k0))"
  have f: "flog2_frac P Q = (if c then k0 else k0 - 1)"
    by (simp add: flog2_frac_def k0_def c_def Let_def)
  have c_real: "c \<longleftrightarrow> 2 powi k0 * real Q \<le> real P"
  proof (cases "0 \<le> k0")
    case True
    have "c \<longleftrightarrow> real (Q * 2 ^ nat k0) \<le> real P"
      unfolding c_def using True by (simp only: of_nat_le_iff if_True)
    then show ?thesis using True by (simp add: p2_nat mult.commute)
  next
    case False
    have "c \<longleftrightarrow> real Q \<le> real (P * 2 ^ nat (- k0))"
      unfolding c_def using False by (simp only: of_nat_le_iff if_False)
    then show ?thesis using False by (simp add: p2_neg field_simps)
  qed
  have qpos: "0 < real Q" using assms by simp
  have up: "real P < 2 powi (k0 + 1) * real Q"
  proof -
    have "real P < 2 powi (int (floorlog 2 P))"
      using floorlog2_real_bounds [OF assms(1)] by simp
    also have "\<dots> = 2 powi ((k0 + 1) + (int (floorlog 2 Q) - 1))"
      by (simp add: k0_def)
    also have "\<dots> = 2 powi (k0 + 1) * 2 powi (int (floorlog 2 Q) - 1)"
      by (rule p2_add)
    also have "\<dots> \<le> 2 powi (k0 + 1) * real Q"
      using floorlog2_real_bounds(1) [OF assms(2)] by (intro mult_left_mono) auto
    finally show ?thesis .
  qed
  have lo: "2 powi (k0 - 1) * real Q \<le> real P"
  proof -
    have "2 powi (k0 - 1) * real Q \<le> 2 powi (k0 - 1) * 2 powi (int (floorlog 2 Q))"
      using floorlog2_real_bounds(2) [OF assms(2)] by (intro mult_left_mono) auto
    also have "\<dots> = 2 powi ((k0 - 1) + int (floorlog 2 Q))"
      by (rule p2_add [symmetric])
    also have "\<dots> = 2 powi (int (floorlog 2 P) - 1)"
      by (simp add: k0_def)
    also have "\<dots> \<le> real P"
      using floorlog2_real_bounds(1) [OF assms(1)] .
    finally show ?thesis .
  qed
  show "2 powi (flog2_frac P Q) * real Q \<le> real P"
    using c_real lo by (simp add: f)
  show "real P < 2 powi (flog2_frac P Q + 1) * real Q"
    using c_real up by (auto simp add: f not_le)
qed

lemma rne_exact: "0 < den \<Longrightarrow> rne (m * den) den = m"
  by (simp add: rne_def)

lemma rne_le: "0 < den \<Longrightarrow> num < N * den \<Longrightarrow> rne num den \<le> N"
proof -
  assume "0 < den" "num < N * den"
  then have "num div den < N"
    by (simp add: div_less_iff_less_mult)
  then show ?thesis by (simp add: rne_def Let_def)
qed

lemma rne_ge: "0 < den \<Longrightarrow> N * den \<le> num \<Longrightarrow> N \<le> rne num den"
proof -
  assume "0 < den" "N * den \<le> num"
  then have "N \<le> num div den"
    by (simp add: less_eq_div_iff_mult_less_eq)
  then show ?thesis by (simp add: rne_def Let_def)
qed

text \<open>The two cases of \<open>rne_scaled\<close> as one fraction of natural numbers.\<close>

lemma rne_scaled_cases:
  obtains num den where "rne_scaled P Q d = rne num den"
    and "real num * real Q = real P * 2 powi d * real den" and "0 < Q \<longrightarrow> 0 < den"
proof (cases "0 \<le> d")
  case True
  show ?thesis
  proof (rule that [of "P * 2 ^ nat d" Q])
    show "rne_scaled P Q d = rne (P * 2 ^ nat d) Q"
      using True by (simp add: rne_scaled_def)
    show "real (P * 2 ^ nat d) * real Q = real P * 2 powi d * real Q"
      using True by (simp add: p2_nat)
    show "0 < Q \<longrightarrow> 0 < Q" by simp
  qed
next
  case False
  show ?thesis
  proof (rule that [of P "Q * 2 ^ nat (- d)"])
    show "rne_scaled P Q d = rne P (Q * 2 ^ nat (- d))"
      using False by (simp add: rne_scaled_def)
    show "real P * real Q = real P * 2 powi d * real (Q * 2 ^ nat (- d))"
      using False by (simp add: p2_neg)
    show "0 < Q \<longrightarrow> 0 < Q * 2 ^ nat (- d)" by simp
  qed
qed

lemma rne_scaled_exact:
  assumes "0 < Q" "real P * 2 powi d = real m * real Q"
  shows "rne_scaled P Q d = m"
proof -
  obtain num den where r: "rne_scaled P Q d = rne num den"
    and f: "real num * real Q = real P * 2 powi d * real den" and d: "0 < den"
    using rne_scaled_cases [of P Q d] assms(1) by blast
  have "real num * real Q = real (m * den) * real Q"
    using f assms(2) by simp
  then have "real num = real (m * den)" using assms(1) by simp
  then have "num = m * den" using of_nat_eq_iff by blast
  then show ?thesis using r d by (simp add: rne_exact)
qed

lemma rne_scaled_le:
  assumes "0 < Q" "real P * 2 powi d < real N * real Q"
  shows "rne_scaled P Q d \<le> N"
proof -
  obtain num den where r: "rne_scaled P Q d = rne num den"
    and f: "real num * real Q = real P * 2 powi d * real den" and d: "0 < den"
    using rne_scaled_cases [of P Q d] assms(1) by blast
  have "real P * 2 powi d * real den < real N * real Q * real den"
    using assms(2) d by simp
  then have "real num * real Q < real (N * den) * real Q"
    using f by (simp add: mult.commute mult.left_commute)
  then have "real num < real (N * den)" using assms(1) by simp
  then have "num < N * den" using of_nat_less_iff by blast
  then show ?thesis using r d by (simp add: rne_le)
qed

lemma rne_scaled_ge:
  assumes "0 < Q" "real N * real Q \<le> real P * 2 powi d"
  shows "N \<le> rne_scaled P Q d"
proof -
  obtain num den where r: "rne_scaled P Q d = rne num den"
    and f: "real num * real Q = real P * 2 powi d * real den" and d: "0 < den"
    using rne_scaled_cases [of P Q d] assms(1) by blast
  have "real N * real Q * real den \<le> real P * 2 powi d * real den"
    using assms(2) d by simp
  then have "real (N * den) * real Q \<le> real num * real Q"
    using f by (simp add: mult.commute mult.left_commute)
  then have "real (N * den) \<le> real num" using assms(1) by simp
  then have "N * den \<le> num" using of_nat_le_iff by blast
  then show ?thesis using r d by (simp add: rne_ge)
qed

lemma p2_less_exp: "(2::real) powi a < 2 powi b \<Longrightarrow> a < b"
proof (rule ccontr)
  assume l: "(2::real) powi a < 2 powi b" and "\<not> a < b"
  then have "b \<le> a" by simp
  then have "(2::real) powi b \<le> 2 powi a"
    by (intro power_int_increasing) auto
  with l show False by simp
qed

lemma round_pos_magnitude:
  assumes "0 < P" "0 < Q"
  shows "2 powi (flog2_frac P Q + E) * real Q \<le> real P * 2 powi E"
    and "real P * 2 powi E < 2 powi (flog2_frac P Q + E + 1) * real Q"
proof -
  have "2 powi (flog2_frac P Q + E) * real Q = (2 powi (flog2_frac P Q) * real Q) * 2 powi E"
    by (simp add: p2_add)
  also have "\<dots> \<le> real P * 2 powi E"
    using flog2_frac_bounds(1) [OF assms] by (intro mult_right_mono) auto
  finally show "2 powi (flog2_frac P Q + E) * real Q \<le> real P * 2 powi E" .
  have "real P * 2 powi E < (2 powi (flog2_frac P Q + 1) * real Q) * 2 powi E"
    using flog2_frac_bounds(2) [OF assms] by (intro mult_strict_right_mono) auto
  also have "\<dots> = 2 powi (flog2_frac P Q + E + 1) * real Q"
    by (simp add: p2_add)
  finally show "real P * 2 powi E < 2 powi (flog2_frac P Q + E + 1) * real Q" .
qed

lemma round_pos_exact:
  assumes wf: "well_formed (Finite s m e)" and m: "0 < m" and P: "0 < P" and Q: "0 < Q"
    and eq: "real P * 2 powi E = real m * 2 powi e * real Q"
  shows "round_pos s P Q E = Finite s m e"
proof -
  define k where "k = flog2_frac P Q + E"
  define v where "v = real m * 2 powi e"
  have m53: "m < 2 ^ 53" and elo: "- 1074 \<le> e" and ehi: "e \<le> 971"
    and norm: "2 ^ 52 \<le> m \<or> e = - 1074"
    using wf by (simp_all add: well_formed_def)
  have qpos: "0 < real Q" using Q by simp
  have "2 powi k * real Q \<le> v * real Q"
    using round_pos_magnitude(1) [OF P Q, of E] by (simp add: k_def v_def eq)
  then have lo: "2 powi k \<le> v" using qpos by simp
  have "v * real Q < 2 powi (k + 1) * real Q"
    using round_pos_magnitude(2) [OF P Q, of E] by (simp add: k_def v_def eq)
  then have hi: "v < 2 powi (k + 1)" using qpos by simp
  have q: "max k (- 1022) - 52 = e"
  proof (cases "2 ^ 52 \<le> m")
    case True
    have "real (2 ^ 52) \<le> real m" using True of_nat_le_iff by blast
    then have "2 powi 52 * 2 powi e \<le> v"
      unfolding v_def by (intro mult_right_mono) auto
    then have a: "2 powi (52 + e) \<le> v" by (simp add: p2_add)
    have "real m < real (2 ^ 53)" using m53 of_nat_less_iff by blast
    then have "v < 2 powi 53 * 2 powi e"
      unfolding v_def by (intro mult_strict_right_mono) auto
    then have b: "v < 2 powi (52 + e + 1)" by (simp add: p2_add)
    have "k = 52 + e" using flog2_unique [OF lo hi a b] .
    then show ?thesis using elo by simp
  next
    case False
    then have e: "e = - 1074" using norm by simp
    have "real m < real (2 ^ 52)" using False of_nat_less_iff by (simp add: not_le)
    then have "v < 2 powi 52 * 2 powi e"
      unfolding v_def by (intro mult_strict_right_mono) auto
    then have "v < 2 powi (- 1022)" by (simp add: e flip: p2_add)
    with lo have "(2::real) powi k < 2 powi (- 1022)" by simp
    then have "k < - 1022" by (rule p2_less_exp)
    then show ?thesis by (simp add: e)
  qed
  have "real P * 2 powi (E - e) = real m * real Q"
    using eq by (simp add: p2_diff field_simps)
  then have n: "rne_scaled P Q (E - e) = m"
    using Q by (rule rne_scaled_exact [rotated])
  show ?thesis
    unfolding round_pos_def Let_def k_def [symmetric] q n
    using m53 ehi by simp
qed


lemma round_pos_cases:
  "round_pos s P Q E = Infinity s \<or> (\<exists>m e. round_pos s P Q E = Finite s m e)"
  by (simp add: round_pos_def Let_def)

lemma round_pos_unfold:
  "round_pos s P Q E =
    (if 971 < (if rne_scaled P Q (E - (max (flog2_frac P Q + E) (- 1022) - 52)) = 2 ^ 53
               then max (flog2_frac P Q + E) (- 1022) - 52 + 1
               else max (flog2_frac P Q + E) (- 1022) - 52)
     then Infinity s
     else Finite s
       (if rne_scaled P Q (E - (max (flog2_frac P Q + E) (- 1022) - 52)) = 2 ^ 53
        then 2 ^ 52 else rne_scaled P Q (E - (max (flog2_frac P Q + E) (- 1022) - 52)))
       (if rne_scaled P Q (E - (max (flog2_frac P Q + E) (- 1022) - 52)) = 2 ^ 53
        then max (flog2_frac P Q + E) (- 1022) - 52 + 1
        else max (flog2_frac P Q + E) (- 1022) - 52))"
  by (simp only: round_pos_def Let_def)

lemma round_pos_overflow:
  assumes P: "0 < P" and Q: "0 < Q" and big: "2 powi 1024 * real Q \<le> real P * 2 powi E"
  shows "round_pos s P Q E = Infinity s"
proof -
  define q where "q = max (flog2_frac P Q + E) (- 1022) - 52"
  have "2 powi 1024 * real Q < 2 powi (flog2_frac P Q + E + 1) * real Q"
    using round_pos_magnitude(2) [OF P Q, of E] big by simp
  then have "(2::real) powi 1024 < 2 powi (flog2_frac P Q + E + 1)" using Q by simp
  then have "1024 < flog2_frac P Q + E + 1" by (rule p2_less_exp)
  then have "971 < q" by (simp add: q_def)
  then show ?thesis
    unfolding round_pos_unfold q_def [symmetric] by simp
qed

lemma round_pos_finite:
  assumes P: "0 < P" and Q: "0 < Q" and small: "real P * 2 powi E < 2 powi 1023 * real Q"
  shows "is_Finite (round_pos s P Q E)"
proof -
  define q where "q = max (flog2_frac P Q + E) (- 1022) - 52"
  have "2 powi (flog2_frac P Q + E) * real Q < 2 powi 1023 * real Q"
    using round_pos_magnitude(1) [OF P Q, of E] small by simp
  then have "(2::real) powi (flog2_frac P Q + E) < 2 powi 1023" using Q by simp
  then have "flog2_frac P Q + E < 1023" by (rule p2_less_exp)
  then have "q + 1 \<le> 971" by (simp add: q_def)
  then show ?thesis
    unfolding round_pos_unfold q_def [symmetric] by simp
qed

lemma round_pos_well_formed:
  assumes P: "0 < P" and Q: "0 < Q"
  shows "well_formed (round_pos s P Q E)"
proof -
  define k where "k = flog2_frac P Q + E"
  define q where "q = max k (- 1022) - 52"
  define n where "n = rne_scaled P Q (E - q)"
  have r: "round_pos s P Q E =
      (if 971 < (if n = 2 ^ 53 then q + 1 else q) then Infinity s
       else Finite s (if n = 2 ^ 53 then 2 ^ 52 else n) (if n = 2 ^ 53 then q + 1 else q))"
    by (simp only: round_pos_unfold k_def q_def n_def)
  have qlo: "- 1074 \<le> q" by (simp add: q_def)
  have lo: "2 powi k * real Q \<le> real P * 2 powi E"
    and hi: "real P * 2 powi E < 2 powi (k + 1) * real Q"
    using round_pos_magnitude [OF P Q, of E] by (simp_all add: k_def)
  have "k + 1 - q \<le> 53" by (simp add: q_def)
  then have "(2::real) powi (k + 1 - q) \<le> 2 powi 53"
    by (intro power_int_increasing) auto
  then have "2 powi (k + 1) \<le> (2::real) ^ 53 * 2 powi q"
    by (simp add: p2_diff field_simps)
  then have "2 powi (k + 1) * real Q \<le> 2 ^ 53 * 2 powi q * real Q"
    by (intro mult_right_mono) auto
  with hi have "real P * 2 powi E < 2 ^ 53 * 2 powi q * real Q" by simp
  then have "real P * 2 powi (E - q) < real (2 ^ 53) * real Q"
    by (simp add: p2_diff field_simps)
  then have n_le: "n \<le> 2 ^ 53"
    unfolding n_def using Q by (intro rne_scaled_le) auto
  have n_ge: "2 ^ 52 \<le> n" if "- 1022 \<le> k"
  proof -
    have "q = k - 52" using that by (simp add: q_def)
    then have "(2::real) ^ 52 * 2 powi q = 2 powi k"
      by (simp add: p2_diff)
    then have "2 ^ 52 * 2 powi q * real Q \<le> real P * 2 powi E"
      using lo by simp
    then have "real (2 ^ 52) * real Q \<le> real P * 2 powi (E - q)"
      by (simp add: p2_diff field_simps)
    then show ?thesis
      unfolding n_def using Q by (intro rne_scaled_ge) auto
  qed
  have sub: "q = - 1074" if "\<not> - 1022 \<le> k"
    using that by (simp add: q_def)
  show ?thesis
  proof (cases "n = 2 ^ 53")
    case True
    then show ?thesis using qlo by (simp add: r well_formed_def)
  next
    case False
    with n_le have "n < 2 ^ 53" by simp
    then show ?thesis
      using False qlo n_ge sub by (auto simp add: r well_formed_def)
  qed
qed

lemma valof_Finite: "valof (Finite s m e) = (if s then - 1 else 1) * real m * 2 powi e"
  by (simp add: valof_def)

lemma well_formed_zero: "well_formed (zero s)"
  by (simp add: well_formed_def zero_def)

lemma valof_zero: "valof (zero s) = 0"
  by (simp add: valof_def zero_def)

lemma aligned:
  assumes "g \<le> e"
  shows "real_of_int ((if s then - 1 else 1) * int (m * 2 ^ nat (e - g))) * 2 powi g =
    valof (Finite s m e)"
proof -
  have "(2::real) ^ nat (e - g) * 2 powi g = 2 powi e"
    using assms p2_nat [of "e - g"] p2_add [of "e - g" g] by simp
  then have "real m * 2 ^ nat (e - g) * 2 powi g = real m * 2 powi e"
    by simp
  then show ?thesis by (simp add: valof_Finite)
qed


lemma signed_eq:
  fixes A B :: real
  assumes "0 < A" "0 < B" "(if s then - 1 else 1) * A = (if u then - 1 else 1) * B"
  shows "s = u" and "A = B"
proof -
  show "s = u"
  proof (cases s; cases u)
    assume "s" "\<not> u"
    with assms have "- A = B" by simp
    with assms(1,2) show ?thesis by linarith
  next
    assume "\<not> s" "u"
    with assms have "A = - B" by simp
    with assms(1,2) show ?thesis by linarith
  qed simp_all
  then show "A = B" using assms(3) by (cases s) simp_all
qed

lemma valof_signed: "valof (Finite s m e) = (if s then - 1 else 1) * (real m * 2 powi e)"
  by (simp add: valof_Finite)

lemma fadd_exact:
  assumes wf: "well_formed (Finite u k j)" and k: "0 < k"
    and eq: "valof (Finite s m e) + valof (Finite t n f) = valof (Finite u k j)"
  shows "fadd (Finite s m e) (Finite t n f) = Finite u k j"
proof -
  define g where "g = min e f"
  define a where "a = (if s then - 1 else 1) * int (m * 2 ^ nat (e - g))"
  define b where "b = (if t then - 1 else 1) * int (n * 2 ^ nat (f - g))"
  have unfold: "fadd (Finite s m e) (Finite t n f) =
      (if a + b = 0 then zero (s \<and> t) else round_pos (a + b < 0) (nat \<bar>a + b\<bar>) 1 g)"
    by (simp only: fadd.simps Let_def g_def a_def b_def)
  have "real_of_int a * 2 powi g = valof (Finite s m e)"
    unfolding a_def by (rule aligned) (simp add: g_def)
  moreover have "real_of_int b * 2 powi g = valof (Finite t n f)"
    unfolding b_def by (rule aligned) (simp add: g_def)
  ultimately have sum: "real_of_int (a + b) * 2 powi g = valof (Finite u k j)"
    using eq by (simp add: algebra_simps)
  have kpos: "0 < real k * 2 powi j" using k by simp
  have ab: "a + b \<noteq> 0"
  proof
    assume "a + b = 0"
    with sum have "valof (Finite u k j) = 0" by simp
    with kpos show False by (simp add: valof_Finite split: if_splits)
  qed
  have sgn: "(if a + b < 0 then - 1 else 1) * (real (nat \<bar>a + b\<bar>) * 2 powi g) =
      real_of_int (a + b) * 2 powi g"
    by simp
  have mpos: "0 < real (nat \<bar>a + b\<bar>) * 2 powi g" using ab by simp
  note sgn
  also note sum
  also have "valof (Finite u k j) = (if u then - 1 else 1) * (real k * 2 powi j)"
    by (rule valof_signed)
  finally have "(if a + b < 0 then - 1 else 1) * (real (nat \<bar>a + b\<bar>) * 2 powi g) =
      (if u then - 1 else 1) * (real k * 2 powi j)" .
  from signed_eq [OF mpos kpos this]
  have s: "(a + b < 0) = u" and v: "real (nat \<bar>a + b\<bar>) * 2 powi g = real k * 2 powi j * real 1"
    by simp_all
  have "round_pos u (nat \<bar>a + b\<bar>) 1 g = Finite u k j"
    using wf k _ _ v by (rule round_pos_exact) (use ab in simp_all)
  then show ?thesis using ab s unfolding unfold by simp
qed

lemma fmul_exact:
  assumes wf: "well_formed (Finite u k j)" and k: "0 < k"
    and eq: "valof (Finite s m e) * valof (Finite t n f) = valof (Finite u k j)"
  shows "fmul (Finite s m e) (Finite t n f) = Finite u k j"
proof -
  have kpos: "0 < real k * 2 powi j" using k by simp
  have prod: "valof (Finite s m e) * valof (Finite t n f) =
      (if s \<noteq> t then - 1 else 1) * (real (m * n) * 2 powi (e + f))"
    by (cases s; cases t) (simp_all add: valof_Finite p2_add)
  have mn: "m * n \<noteq> 0"
  proof
    assume "m * n = 0"
    with prod eq have "valof (Finite u k j) = 0" by simp
    with kpos show False by (simp add: valof_Finite split: if_splits)
  qed
  then have mpos: "0 < real (m * n) * 2 powi (e + f)" by simp
  have "(if s \<noteq> t then - 1 else 1) * (real (m * n) * 2 powi (e + f)) =
      valof (Finite s m e) * valof (Finite t n f)"
    by (rule prod [symmetric])
  also have "\<dots> = valof (Finite u k j)" by (rule eq)
  also have "\<dots> = (if u then - 1 else 1) * (real k * 2 powi j)" by (rule valof_signed)
  finally have "(if s \<noteq> t then - 1 else 1) * (real (m * n) * 2 powi (e + f)) =
      (if u then - 1 else 1) * (real k * 2 powi j)" .
  from signed_eq [OF mpos kpos this]
  have s: "(s \<noteq> t) = u" and v: "real (m * n) * 2 powi (e + f) = real k * 2 powi j * real 1"
    by simp_all
  have "round_pos u (m * n) 1 (e + f) = Finite u k j"
    using wf k _ _ v by (rule round_pos_exact) (use mn in simp_all)
  then show ?thesis using mn s by simp
qed

lemma fdiv_exact:
  assumes wf: "well_formed (Finite u k j)" and k: "0 < k" and n: "0 < n"
    and eq: "valof (Finite s m e) = valof (Finite u k j) * valof (Finite t n f)"
  shows "fdiv (Finite s m e) (Finite t n f) = Finite u k j"
proof -
  have kpos: "0 < real k * 2 powi j * (real n * 2 powi f)" using k n by simp
  have prod: "valof (Finite u k j) * valof (Finite t n f) =
      (if u \<noteq> t then - 1 else 1) * (real k * 2 powi j * (real n * 2 powi f))"
    by (cases u; cases t) (simp_all add: valof_Finite)
  have "(if s then - 1 else 1) * (real m * 2 powi e) = valof (Finite s m e)"
    by (rule valof_signed [symmetric])
  also have "\<dots> = valof (Finite u k j) * valof (Finite t n f)" by (rule eq)
  also have "\<dots> = (if u \<noteq> t then - 1 else 1) * (real k * 2 powi j * (real n * 2 powi f))"
    by (rule prod)
  finally have signed: "(if s then - 1 else 1) * (real m * 2 powi e) =
      (if u \<noteq> t then - 1 else 1) * (real k * 2 powi j * (real n * 2 powi f))" .
  have m: "m \<noteq> 0"
  proof
    assume "m = 0"
    with signed k n show False by (simp split: if_splits)
  qed
  then have mpos: "0 < real m * 2 powi e" by simp
  from signed_eq [OF mpos kpos signed]
  have s: "s = (u \<noteq> t)"
    and v: "real m * 2 powi e = real k * 2 powi j * (real n * 2 powi f)"
    by simp_all
  have "real m * 2 powi (e - f) = real k * 2 powi j * real n"
    using v by (simp add: p2_diff field_simps)
  then have "round_pos u m n (e - f) = Finite u k j"
    using wf k _ n by (rule round_pos_exact [rotated -1]) (use m in simp)
  moreover have "(s \<noteq> t) = u" using s by auto
  ultimately show ?thesis using m n by simp
qed


lemma fadd_well_formed: "well_formed (fadd x y)"
proof (cases x; cases y)
  fix s m e t n f
  assume "x = Finite s m e" "y = Finite t n f"
  then show ?thesis
    by (simp add: Let_def round_pos_well_formed well_formed_zero)
qed (simp_all add: well_formed_def)

lemma fmul_well_formed: "well_formed (fmul x y)"
proof (cases x; cases y)
  fix s m e t n f
  assume "x = Finite s m e" "y = Finite t n f"
  then show ?thesis
    by (simp add: round_pos_well_formed well_formed_zero)
qed (simp_all add: well_formed_def)

lemma fdiv_well_formed: "well_formed (fdiv x y)"
proof (cases x; cases y)
  fix s m e t n f
  assume "x = Finite s m e" "y = Finite t n f"
  then show ?thesis
    by (simp add: round_pos_well_formed well_formed_zero) (simp add: well_formed_def)
qed (simp_all add: well_formed_def zero_def)

lemma fneg_well_formed: "well_formed (fneg x) = well_formed x"
  by (cases x) (simp_all add: well_formed_def)

lemma fsub_well_formed: "well_formed (fsub x y)"
  by (simp add: fsub_def fadd_well_formed)

lemma valof_two: "valof two = 2"
  by (simp add: valof_def two_def)

lemma fdiv_two_finite:
  assumes "well_formed z" "is_Finite z"
  shows "is_Finite (fdiv z two)"
proof -
  obtain u k j where z: "z = Finite u k j" using assms(2) by (cases z) simp_all
  have k53: "k < 2 ^ 53" and j: "j \<le> 971"
    using assms(1) by (simp_all add: z well_formed_def)
  show ?thesis
  proof (cases "k = 0")
    case True
    then show ?thesis by (simp add: z two_def zero_def)
  next
    case False
    have "real k < real (2 ^ 53)" using k53 of_nat_less_iff by blast
    then have "real k * 2 powi (j + 51) < 2 ^ 53 * 2 powi (j + 51)"
      by (intro mult_strict_right_mono) auto
    also have "\<dots> = 2 powi (53 + (j + 51))"
      using p2_add [of 53 "j + 51"] by simp
    also have "\<dots> \<le> 2 powi (1023 + 52)"
      using j by (intro power_int_increasing) auto
    also have "\<dots> = 2 powi 1023 * real (2 ^ 52)"
      using p2_add [of 1023 52] by simp
    finally have "is_Finite (round_pos u k (2 ^ 52) (j + 51))"
      using False by (intro round_pos_finite) auto
    then show ?thesis using False by (simp add: z two_def)
  qed
qed

lemma fmul_zero:
  assumes "is_Finite y" "is_zero dx"
  shows "is_zero (fmul y dx)"
proof -
  obtain s m e where y: "y = Finite s m e" using assms(1) by (cases y) simp_all
  obtain t f where dx: "dx = Finite t 0 f" using assms(2) by (cases dx) (simp_all add: is_zero_def)
  show ?thesis by (simp add: y dx is_zero_def zero_def)
qed

lemma fsub_zero:
  assumes "well_formed a" "is_zero z"
  shows "same_number (fsub a z) a"
proof -
  obtain t f where z: "z = Finite t 0 f" using assms(2) by (cases z) (simp_all add: is_zero_def)
  show ?thesis
  proof (cases a)
    case (Finite s m e)
    show ?thesis
    proof (cases "m = 0")
      case True
      then show ?thesis
        by (simp add: Finite z fsub_def same_number_def is_zero_def zero_def)
    next
      case False
      have "valof (Finite s m e) + valof (Finite (\<not> t) 0 f) = valof (Finite s m e)"
        by (simp add: valof_def)
      with assms(1) False have "fadd (Finite s m e) (Finite (\<not> t) 0 f) = Finite s m e"
        unfolding Finite by (intro fadd_exact) auto
      then show ?thesis by (simp add: Finite z fsub_def same_number_def)
    qed
  next
    case (Infinity s)
    then show ?thesis by (simp add: z fsub_def same_number_def)
  next
    case NaN
    then show ?thesis by (simp add: z fsub_def same_number_def)
  qed
qed

lemma fadd_self:
  assumes "0 < m"
  shows "fadd (Finite s m e) (Finite s m e) = round_pos s (2 * m) 1 e"
proof -
  have "nat \<bar>2 * int m\<bar> = 2 * m" by simp
  then show ?thesis using assms by (cases s) (simp_all add: Let_def)
qed

lemma fadd_self_half:
  assumes wf: "well_formed c" and fin: "is_Finite (fadd c c)"
  shows "fdiv (fadd c c) two = c"
proof -
  obtain s m e where c: "c = Finite s m e" using fin by (cases c) simp_all
  have m53: "m < 2 ^ 53" and elo: "- 1074 \<le> e" and ehi: "e \<le> 971"
    and norm: "2 ^ 52 \<le> m \<or> e = - 1074"
    using wf by (simp_all add: c well_formed_def)
  show ?thesis
  proof (cases "m = 0")
    case True
    with norm have "e = - 1074" by simp
    with True show ?thesis by (simp add: c two_def zero_def)
  next
    case False
    then have mpos: "0 < m" by simp
    have half: "fdiv (Finite s k j) two = c"
      if "valof (Finite s k j) = valof c * 2" for k j
      unfolding c two_def using wf [unfolded c] mpos
      by (rule fdiv_exact) (use that in \<open>simp_all add: c valof_def\<close>)
    show ?thesis
    proof (cases "2 ^ 52 \<le> m")
      case True
      show ?thesis
      proof (cases "e = 971")
        case True
        have "real (2 ^ 53) \<le> real (2 * m)"
          using \<open>2 ^ 52 \<le> m\<close> of_nat_le_iff by fastforce
        then have "2 powi 53 * 2 powi 971 \<le> real (2 * m) * 2 powi 971"
          by (intro mult_right_mono) auto
        then have "2 powi 1024 * real 1 \<le> real (2 * m) * 2 powi e"
          using p2_add [of 53 971] by (simp add: True)
        then have "round_pos s (2 * m) 1 e = Infinity s"
          using mpos by (intro round_pos_overflow) auto
        then have "fadd c c = Infinity s"
          unfolding c fadd_self [OF mpos] .
        with fin show ?thesis by simp
      next
        case False
        have v: "valof (Finite s m (e + 1)) = valof (Finite s m e) + valof (Finite s m e)"
          by (simp add: valof_def power_int_add_1)
        have "well_formed (Finite s m (e + 1))"
          using m53 elo ehi False True by (simp add: well_formed_def)
        then have "fadd (Finite s m e) (Finite s m e) = Finite s m (e + 1)"
          using mpos v by (intro fadd_exact) auto
        moreover have "fdiv (Finite s m (e + 1)) two = c"
          by (rule half) (simp add: c v)
        ultimately show ?thesis by (simp add: c)
      qed
    next
      case False
      then have e: "e = - 1074" using norm by simp
      have v: "valof (Finite s (2 * m) e) = valof (Finite s m e) + valof (Finite s m e)"
        by (simp add: valof_def)
      have "well_formed (Finite s (2 * m) e)"
        using False e by (simp add: well_formed_def)
      then have "fadd (Finite s m e) (Finite s m e) = Finite s (2 * m) e"
        using mpos v by (intro fadd_exact) auto
      moreover have "fdiv (Finite s (2 * m) e) two = c"
        by (rule half) (simp add: c v)
      ultimately show ?thesis by (simp add: c)
    qed
  qed
qed

subsection \<open>Results that need no rounding\<close>

text \<open>
  An operation on finite doubles whose exact result is representable returns a finite
  double that stands for the exact result.
\<close>

lemma representableI: "well_formed x \<Longrightarrow> is_Finite x \<Longrightarrow> valof x = r \<Longrightarrow> representable r"
  unfolding representable_def by blast

lemma valof_fneg: "valof (fneg x) = - valof x"
  by (cases x) (simp_all add: valof_def)

lemma is_Finite_fneg: "is_Finite (fneg x) = is_Finite x"
  by (cases x) simp_all

lemma fadd_representable:
  assumes "is_Finite x" "is_Finite y" "representable (valof x + valof y)"
  shows "is_Finite (fadd x y) \<and> valof (fadd x y) = valof x + valof y"
proof -
  obtain s m e where x: "x = Finite s m e" using assms(1) by (cases x) simp_all
  obtain t n f where y: "y = Finite t n f" using assms(2) by (cases y) simp_all
  obtain z where wf: "well_formed z" and fin: "is_Finite z" and v: "valof z = valof x + valof y"
    using assms(3) unfolding representable_def by blast
  obtain u k j where z: "z = Finite u k j" using fin by (cases z) simp_all
  show ?thesis
  proof (cases "k = 0")
    case True
    define g where "g = min e f"
    define a where "a = (if s then - 1 else 1) * int (m * 2 ^ nat (e - g))"
    define b where "b = (if t then - 1 else 1) * int (n * 2 ^ nat (f - g))"
    have unfold: "fadd x y =
        (if a + b = 0 then zero (s \<and> t) else round_pos (a + b < 0) (nat \<bar>a + b\<bar>) 1 g)"
      unfolding x y by (simp only: fadd.simps Let_def g_def a_def b_def)
    have "real_of_int a * 2 powi g = valof x"
      unfolding a_def x by (rule aligned) (simp add: g_def)
    moreover have "real_of_int b * 2 powi g = valof y"
      unfolding b_def y by (rule aligned) (simp add: g_def)
    ultimately have "real_of_int (a + b) * 2 powi g = valof x + valof y"
      by (simp add: algebra_simps)
    moreover have "valof x + valof y = 0"
      using v True by (simp add: z valof_def)
    ultimately have "a + b = 0" by simp
    then have "fadd x y = zero (s \<and> t)" unfolding unfold by simp
    then show ?thesis using \<open>valof x + valof y = 0\<close> by (simp add: valof_def zero_def)
  next
    case False
    have wf': "well_formed (Finite u k j)" using wf by (simp add: z)
    have kpos: "0 < k" using False by simp
    have eq: "valof (Finite s m e) + valof (Finite t n f) = valof (Finite u k j)"
      using v by (simp add: x y z)
    have "fadd (Finite s m e) (Finite t n f) = Finite u k j"
      using wf' kpos eq by (rule fadd_exact)
    then show ?thesis using eq by (simp add: x y)
  qed
qed

lemma fsub_representable:
  assumes "is_Finite x" "is_Finite y" "representable (valof x - valof y)"
  shows "is_Finite (fsub x y) \<and> valof (fsub x y) = valof x - valof y"
  using fadd_representable [of x "fneg y"] assms
  by (simp add: fsub_def is_Finite_fneg valof_fneg)

lemma fmul_representable:
  assumes "is_Finite x" "is_Finite y" "representable (valof x * valof y)"
  shows "is_Finite (fmul x y) \<and> valof (fmul x y) = valof x * valof y"
proof -
  obtain s m e where x: "x = Finite s m e" using assms(1) by (cases x) simp_all
  obtain t n f where y: "y = Finite t n f" using assms(2) by (cases y) simp_all
  obtain z where wf: "well_formed z" and fin: "is_Finite z" and v: "valof z = valof x * valof y"
    using assms(3) unfolding representable_def by blast
  obtain u k j where z: "z = Finite u k j" using fin by (cases z) simp_all
  show ?thesis
  proof (cases "m * n = 0")
    case True
    then show ?thesis by (auto simp add: x y valof_def zero_def)
  next
    case False
    then have "valof x * valof y \<noteq> 0" by (simp add: x y valof_def)
    then have "valof z \<noteq> 0" using v by simp
    then have kpos: "0 < k" by (simp add: z valof_def)
    have wf': "well_formed (Finite u k j)" using wf by (simp add: z)
    have eq: "valof (Finite s m e) * valof (Finite t n f) = valof (Finite u k j)"
      using v by (simp add: x y z)
    have "fmul (Finite s m e) (Finite t n f) = Finite u k j"
      using wf' kpos eq by (rule fmul_exact)
    then show ?thesis using eq by (simp add: x y)
  qed
qed

lemma fdiv_two_representable:
  assumes "is_Finite x" "representable (valof x / 2)"
  shows "is_Finite (fdiv x two) \<and> valof (fdiv x two) = valof x / 2"
proof -
  obtain s m e where x: "x = Finite s m e" using assms(1) by (cases x) simp_all
  obtain z where wf: "well_formed z" and fin: "is_Finite z" and v: "valof z = valof x / 2"
    using assms(2) unfolding representable_def by blast
  obtain u k j where z: "z = Finite u k j" using fin by (cases z) simp_all
  show ?thesis
  proof (cases "m = 0")
    case True
    then show ?thesis by (simp add: x two_def valof_def zero_def)
  next
    case False
    then have "valof x / 2 \<noteq> 0" by (simp add: x valof_def)
    then have "valof z \<noteq> 0" using v by simp
    then have kpos: "0 < k" by (simp add: z valof_def)
    have wf': "well_formed (Finite u k j)" using wf by (simp add: z)
    have "valof x = valof z * valof two"
      using v by (simp add: valof_two)
    then have eq: "valof (Finite s m e) = valof (Finite u k j) * valof (Finite False (2 ^ 52) (- 51))"
      by (simp add: x z two_def)
    have "fdiv (Finite s m e) (Finite False (2 ^ 52) (- 51)) = Finite u k j"
      using wf' kpos _ eq by (rule fdiv_exact) simp
    then show ?thesis using v by (simp add: x z two_def)
  qed
qed

subsection \<open>Rounding is to nearest\<close>

text \<open>
  The integer that \<open>rne\<close> returns is a nearest one, the even one at a tie; hence the
  double that \<open>round_pos\<close> returns is at least as near to the number rounded as every
  other double of the format.
\<close>

lemma rne_nearest:
  assumes "0 < den"
  shows "\<bar>int (rne num den) * int den - int num\<bar> \<le> \<bar>int j * int den - int num\<bar>"
proof -
  define f where "f = num div den"
  define r where "r = num mod den"
  have num: "int num = int f * int den + int r"
    unfolding f_def r_def by (metis div_mult_mod_eq of_nat_add of_nat_mult)
  have r: "r < den" unfolding r_def using assms by simp
  have below: "int r \<le> \<bar>int j * int den - int num\<bar>" if "j \<le> f"
  proof -
    have "int j * int den \<le> int f * int den"
      using that by (simp add: mult_right_mono)
    then show ?thesis using num by linarith
  qed
  have above: "int den - int r \<le> \<bar>int j * int den - int num\<bar>" if "f < j"
  proof -
    have "int (f + 1) * int den \<le> int j * int den"
      using that by (intro mult_right_mono) auto
    then have "int f * int den + int den \<le> int j * int den"
      by (simp add: algebra_simps)
    then show ?thesis using num by linarith
  qed
  have up: "int (f + 1) * int den - int num = int den - int r"
    using num by (simp add: algebra_simps)
  have down: "int f * int den - int num = - int r"
    using num by simp
  consider "2 * r < den" | "den < 2 * r" | "2 * r = den" by linarith
  then show ?thesis
  proof cases
    case 1
    then have e: "rne num den = f" by (simp add: rne_def f_def r_def)
    show ?thesis
    proof (cases "j \<le> f")
      case True
      then show ?thesis using below e down by simp
    next
      case False
      then have "int den - int r \<le> \<bar>int j * int den - int num\<bar>" using above by simp
      then show ?thesis using e down 1 by simp
    qed
  next
    case 2
    then have e: "rne num den = f + 1" by (simp add: rne_def f_def r_def)
    show ?thesis
    proof (cases "j \<le> f")
      case True
      then have "int r \<le> \<bar>int j * int den - int num\<bar>" using below by simp
      then show ?thesis using r 2 unfolding e up by linarith
    next
      case False
      then have "int den - int r \<le> \<bar>int j * int den - int num\<bar>" using above by simp
      then show ?thesis using r unfolding e up by linarith
    qed
  next
    case 3
    then have e: "rne num den = f \<or> rne num den = f + 1"
      by (simp add: rne_def f_def r_def Let_def)
    have "int den - int r = int r" using 3 by linarith
    then have err: "\<bar>int (rne num den) * int den - int num\<bar> = int r"
      using e up down by auto
    show ?thesis
    proof (cases "j \<le> f")
      case True
      then show ?thesis using below err by simp
    next
      case False
      then have "int den - int r \<le> \<bar>int j * int den - int num\<bar>" using above by simp
      then show ?thesis using err \<open>int den - int r = int r\<close> by simp
    qed
  qed
qed

lemma rne_tie_even:
  assumes "0 < den" "2 * \<bar>int (rne num den) * int den - int num\<bar> = int den"
  shows "even (rne num den)"
proof -
  define f where "f = num div den"
  define r where "r = num mod den"
  have num: "int num = int f * int den + int r"
    unfolding f_def r_def by (metis div_mult_mod_eq of_nat_add of_nat_mult)
  have r: "r < den" unfolding r_def using assms by simp
  have "2 * r = den"
  proof (rule ccontr)
    assume n: "2 * r \<noteq> den"
    show False
    proof (cases "2 * r < den")
      case True
      then have "rne num den = f" by (simp add: rne_def f_def r_def)
      then have "\<bar>int (rne num den) * int den - int num\<bar> = int r" using num by simp
      then have "2 * int r = int den" using assms(2) by simp
      moreover have "2 * int r < int den" using True by linarith
      ultimately show False by linarith
    next
      case False
      with n have gt: "den < 2 * r" by simp
      then have "rne num den = f + 1" by (simp add: rne_def f_def r_def)
      then have "int (rne num den) * int den - int num = int den - int r"
        using num by (simp add: algebra_simps)
      moreover have "\<bar>int den - int r\<bar> = int den - int r" using r by simp
      ultimately have "2 * (int den - int r) = int den" using assms(2) by simp
      then have "int den = 2 * int r" by (simp add: algebra_simps)
      then show False using gt by simp
    qed
  qed
  then show ?thesis by (simp add: rne_def f_def r_def Let_def)
qed


lemma rne_scaled_nearest:
  assumes "0 < Q"
  shows "\<bar>real (rne_scaled P Q d) * real Q - real P * 2 powi d\<bar>
    \<le> \<bar>real j * real Q - real P * 2 powi d\<bar>"
proof -
  obtain num den where r: "rne_scaled P Q d = rne num den"
    and f: "real num * real Q = real P * 2 powi d * real den" and d: "0 < den"
    using rne_scaled_cases [of P Q d] assms by blast
  have scale: "\<bar>real x * real Q - real P * 2 powi d\<bar> * real den =
      real Q * real_of_int \<bar>int x * int den - int num\<bar>" for x
  proof -
    have "(real x * real Q - real P * 2 powi d) * real den =
        real Q * (real x * real den - real num)"
      using f by (simp add: algebra_simps)
    then have "\<bar>real x * real Q - real P * 2 powi d\<bar> * \<bar>real den\<bar> =
        \<bar>real Q\<bar> * \<bar>real x * real den - real num\<bar>"
      by (metis abs_mult)
    then show ?thesis by simp
  qed
  have "real_of_int \<bar>int (rne num den) * int den - int num\<bar>
      \<le> real_of_int \<bar>int j * int den - int num\<bar>"
    using rne_nearest [OF d, of num j] of_int_le_iff by blast
  then have "real Q * real_of_int \<bar>int (rne num den) * int den - int num\<bar>
      \<le> real Q * real_of_int \<bar>int j * int den - int num\<bar>"
    by (intro mult_left_mono) auto
  then have "\<bar>real (rne num den) * real Q - real P * 2 powi d\<bar> * real den
      \<le> \<bar>real j * real Q - real P * 2 powi d\<bar> * real den"
    by (simp only: scale)
  then show ?thesis using d by (simp add: r)
qed

theorem round_pos_nearest:
  assumes P: "0 < P" and Q: "0 < Q" and res: "round_pos s P Q E = Finite s m e"
    and wf: "well_formed (Finite s k j)"
  shows "\<bar>real m * 2 powi e * real Q - real P * 2 powi E\<bar>
    \<le> \<bar>real k * 2 powi j * real Q - real P * 2 powi E\<bar>"
proof -
  define kk where "kk = flog2_frac P Q + E"
  define q where "q = max kk (- 1022) - 52"
  define n where "n = rne_scaled P Q (E - q)"
  define V where "V = real P * 2 powi E"
  have r: "round_pos s P Q E =
      (if 971 < (if n = 2 ^ 53 then q + 1 else q) then Infinity s
       else Finite s (if n = 2 ^ 53 then 2 ^ 52 else n) (if n = 2 ^ 53 then q + 1 else q))"
    by (simp only: round_pos_unfold kk_def q_def n_def)
  have val: "real m * 2 powi e = real n * 2 powi q"
  proof (cases "n = 2 ^ 53")
    case True
    then have "m = 2 ^ 52" "e = q + 1" using res r by (simp_all split: if_splits)
    then show ?thesis using True by (simp add: power_int_add_1)
  next
    case False
    then have "m = n" "e = q" using res r by (simp_all split: if_splits)
    then show ?thesis by simp
  qed
  have near: "\<bar>real n * 2 powi q * real Q - V\<bar> \<le> \<bar>real J * 2 powi q * real Q - V\<bar>" for J
  proof -
    have sc: "\<bar>real x * 2 powi q * real Q - V\<bar> =
        \<bar>real x * real Q - real P * 2 powi (E - q)\<bar> * 2 powi q" for x
    proof -
      have "real x * 2 powi q * real Q - V = (real x * real Q - real P * 2 powi (E - q)) * 2 powi q"
        by (simp add: V_def p2_diff algebra_simps)
      then show ?thesis by (simp add: abs_mult)
    qed
    have "\<bar>real n * real Q - real P * 2 powi (E - q)\<bar> * 2 powi q
        \<le> \<bar>real J * real Q - real P * 2 powi (E - q)\<bar> * 2 powi q"
      unfolding n_def using rne_scaled_nearest [OF Q, of P "E - q" J]
      by (intro mult_right_mono) auto
    then show ?thesis by (simp only: sc)
  qed
  have k53: "k < 2 ^ 53" and jlo: "- 1074 \<le> j"
    using wf by (simp_all add: well_formed_def)
  show ?thesis
  proof (cases "q \<le> j")
    case True
    have "real (k * 2 ^ nat (j - q)) * 2 powi q = real k * 2 powi j"
      using True p2_nat [of "j - q"] p2_add [of "j - q" q] by simp
    then show ?thesis
      using near [of "k * 2 ^ nat (j - q)"] by (simp only: val V_def)
  next
    case False
    then have "- 1074 < q" using jlo by simp
    then have q: "q = kk - 52" by (simp add: q_def split: if_splits)
    have lo: "2 powi kk * real Q \<le> V"
      using round_pos_magnitude(1) [OF P Q, of E] by (simp add: kk_def V_def)
    have "real k * 2 powi j \<le> real (2 ^ 53) * 2 powi j"
      using k53 by (intro mult_right_mono) (auto simp del: of_nat_power of_nat_numeral)
    also have "\<dots> = 2 powi (53 + j)"
      using p2_add [of 53 j] by simp
    also have "\<dots> \<le> 2 powi kk"
      using False q by (intro power_int_increasing) auto
    finally have z: "real k * 2 powi j * real Q \<le> 2 powi kk * real Q"
      using Q by (intro mult_right_mono) auto
    have "real (2 ^ 52) * 2 powi q = 2 powi kk"
      using p2_add [of 52 q] by (simp add: q)
    then have "\<bar>real n * 2 powi q * real Q - V\<bar> \<le> \<bar>2 powi kk * real Q - V\<bar>"
      using near [of "2 ^ 52"] by simp
    also have "\<dots> \<le> \<bar>real k * 2 powi j * real Q - V\<bar>"
      using lo z by linarith
    finally show ?thesis by (simp only: val V_def)
  qed
qed

text \<open>
  So the operations are correctly rounded: a finite sum, product or quotient that the
  model returns is a double nearest to the exact sum, product or quotient.
\<close>

lemma round_pos_nearest_value:
  assumes P: "0 < P" and Q: "0 < Q" and fin: "is_Finite (round_pos s P Q E)"
    and wf: "well_formed z" and z: "is_Finite z"
    and v: "v = (if s then - 1 else 1) * (real P * 2 powi E / real Q)"
  shows "\<bar>valof (round_pos s P Q E) - v\<bar> \<le> \<bar>valof z - v\<bar>"
proof -
  define w where "w = real P * 2 powi E / real Q"
  have wpos: "0 < w" using P Q by (simp add: w_def)
  obtain m e where r: "round_pos s P Q E = Finite s m e"
    using fin round_pos_cases [of s P Q E] by auto
  obtain t k j where zz: "z = Finite t k j" using z by (cases z) simp_all
  have scaled: "\<bar>real a * 2 powi b - w\<bar> * real Q = \<bar>real a * 2 powi b * real Q - real P * 2 powi E\<bar>"
    for a b
  proof -
    have "(real a * 2 powi b - w) * real Q = real a * 2 powi b * real Q - real P * 2 powi E"
      using Q by (simp add: w_def field_simps)
    then have "\<bar>real a * 2 powi b - w\<bar> * \<bar>real Q\<bar> =
        \<bar>real a * 2 powi b * real Q - real P * 2 powi E\<bar>"
      by (metis abs_mult)
    then show ?thesis by simp
  qed
  have near: "\<bar>real m * 2 powi e - w\<bar> \<le> \<bar>real a * 2 powi b - w\<bar>"
    if "well_formed (Finite s a b)" for a b
  proof -
    have "\<bar>real m * 2 powi e - w\<bar> * real Q \<le> \<bar>real a * 2 powi b - w\<bar> * real Q"
      unfolding scaled using round_pos_nearest [OF P Q r that] .
    then show ?thesis using Q by simp
  qed
  have "well_formed (Finite s 0 (- 1074))" by (simp add: well_formed_def)
  from near [OF this] have small: "\<bar>real m * 2 powi e - w\<bar> \<le> w"
    using wpos by simp
  have "valof (Finite s m e) - v = (if s then - 1 else 1) * (real m * 2 powi e - w)"
    by (simp add: v w_def valof_Finite algebra_simps)
  then have "\<bar>valof (Finite s m e) - v\<bar> = \<bar>real m * 2 powi e - w\<bar>"
    by (simp add: abs_mult)
  then have vr: "\<bar>valof (round_pos s P Q E) - v\<bar> = \<bar>real m * 2 powi e - w\<bar>"
    by (simp only: r)
  show ?thesis
  proof (cases "t = s")
    case True
    then have "well_formed (Finite s k j)" using wf zz by simp
    from near [OF this] have "\<bar>real m * 2 powi e - w\<bar> \<le> \<bar>real k * 2 powi j - w\<bar>" .
    moreover have "valof z - v = (if s then - 1 else 1) * (real k * 2 powi j - w)"
      using True by (simp add: zz v w_def valof_Finite algebra_simps)
    then have "\<bar>valof z - v\<bar> = \<bar>real k * 2 powi j - w\<bar>"
      by (simp add: abs_mult)
    ultimately show ?thesis using vr by simp
  next
    case False
    have "0 \<le> real k * 2 powi j" by simp
    moreover have "valof z - v = (if s then 1 else - 1) * (real k * 2 powi j + w)"
      using False by (cases s; cases t) (simp_all add: zz v w_def valof_Finite algebra_simps)
    then have "\<bar>valof z - v\<bar> = real k * 2 powi j + w"
      using wpos by (simp add: abs_mult)
    ultimately show ?thesis using vr small by linarith
  qed
qed

theorem fadd_nearest:
  assumes "is_Finite x" "is_Finite y" "is_Finite (fadd x y)" "well_formed z" "is_Finite z"
  shows "\<bar>valof (fadd x y) - (valof x + valof y)\<bar> \<le> \<bar>valof z - (valof x + valof y)\<bar>"
proof -
  obtain s m e where x: "x = Finite s m e" using assms(1) by (cases x) simp_all
  obtain t n f where y: "y = Finite t n f" using assms(2) by (cases y) simp_all
  define g where "g = min e f"
  define a where "a = (if s then - 1 else 1) * int (m * 2 ^ nat (e - g))"
  define b where "b = (if t then - 1 else 1) * int (n * 2 ^ nat (f - g))"
  have unfold: "fadd x y =
      (if a + b = 0 then zero (s \<and> t) else round_pos (a + b < 0) (nat \<bar>a + b\<bar>) 1 g)"
    unfolding x y by (simp only: fadd.simps Let_def g_def a_def b_def)
  have "real_of_int a * 2 powi g = valof x"
    unfolding a_def x by (rule aligned) (simp add: g_def)
  moreover have "real_of_int b * 2 powi g = valof y"
    unfolding b_def y by (rule aligned) (simp add: g_def)
  ultimately have sum: "real_of_int (a + b) * 2 powi g = valof x + valof y"
    by (simp add: algebra_simps)
  show ?thesis
  proof (cases "a + b = 0")
    case True
    then have "valof x + valof y = 0" using sum by simp
    moreover have "valof (fadd x y) = 0" using True by (simp add: unfold valof_zero)
    ultimately show ?thesis by simp
  next
    case False
    have r: "fadd x y = round_pos (a + b < 0) (nat \<bar>a + b\<bar>) 1 g"
      using False by (simp add: unfold)
    have "valof x + valof y =
        (if a + b < 0 then - 1 else 1) * (real (nat \<bar>a + b\<bar>) * 2 powi g / real 1)"
      using sum by (simp add: algebra_simps)
    then show ?thesis
      unfolding r using False assms(3-5)
      by (intro round_pos_nearest_value) (simp_all add: r)
  qed
qed

theorem fmul_nearest:
  assumes "is_Finite x" "is_Finite y" "is_Finite (fmul x y)" "well_formed z" "is_Finite z"
  shows "\<bar>valof (fmul x y) - valof x * valof y\<bar> \<le> \<bar>valof z - valof x * valof y\<bar>"
proof -
  obtain s m e where x: "x = Finite s m e" using assms(1) by (cases x) simp_all
  obtain t n f where y: "y = Finite t n f" using assms(2) by (cases y) simp_all
  have prod: "valof x * valof y = (if s \<noteq> t then - 1 else 1) * (real (m * n) * 2 powi (e + f))"
    unfolding x y by (cases s; cases t) (simp_all add: valof_Finite p2_add)
  show ?thesis
  proof (cases "m * n = 0")
    case True
    then have p0: "valof x * valof y = 0" using prod by simp
    have r0: "valof (fmul x y) = 0" using True by (simp add: x y valof_zero)
    show ?thesis unfolding p0 r0 by simp
  next
    case False
    have r: "fmul x y = round_pos (s \<noteq> t) (m * n) 1 (e + f)"
      using False by (simp add: x y)
    have "valof x * valof y =
        (if s \<noteq> t then - 1 else 1) * (real (m * n) * 2 powi (e + f) / real 1)"
      using prod by simp
    then show ?thesis
      unfolding r using False assms(3-5)
      by (intro round_pos_nearest_value) (simp_all add: r)
  qed
qed

theorem fdiv_nearest:
  assumes "is_Finite x" "is_Finite y" "\<not> is_zero y" "is_Finite (fdiv x y)"
    "well_formed z" "is_Finite z"
  shows "\<bar>valof (fdiv x y) - valof x / valof y\<bar> \<le> \<bar>valof z - valof x / valof y\<bar>"
proof -
  obtain s m e where x: "x = Finite s m e" using assms(1) by (cases x) simp_all
  obtain t n f where y: "y = Finite t n f" using assms(2) by (cases y) simp_all
  have n: "n \<noteq> 0" using assms(3) by (simp add: y is_zero_def)
  have quot: "valof x / valof y = (if s \<noteq> t then - 1 else 1) * (real m * 2 powi (e - f) / real n)"
    unfolding x y using n by (cases s; cases t) (simp_all add: valof_Finite p2_diff)
  show ?thesis
  proof (cases "m = 0")
    case True
    then have p0: "valof x / valof y = 0" using quot by simp
    have r0: "valof (fdiv x y) = 0" using True n by (simp add: x y valof_zero)
    show ?thesis unfolding p0 r0 by simp
  next
    case False
    have r: "fdiv x y = round_pos (s \<noteq> t) m n (e - f)"
      using False n by (simp add: x y)
    show ?thesis
      unfolding r using False n assms(4-6) quot
      by (intro round_pos_nearest_value) (simp_all add: r)
  qed
qed

subsection \<open>Rounding keeps the order\<close>

text \<open>
  A result that is not above a double before it is rounded is not above it afterwards, and
  does not overflow upwards; likewise from below. So a bound that is representable
  survives every operation.
\<close>

lemma double_le_max:
  assumes "well_formed (Finite t k j)"
  shows "real k * 2 powi j \<le> (2 ^ 53 - 1) * 2 powi 971"
proof -
  have "k < 2 ^ 53" and j: "j \<le> 971"
    using assms by (simp_all add: well_formed_def)
  then have "k \<le> 2 ^ 53 - 1" by simp
  then have "real k \<le> real (2 ^ 53 - 1)" using of_nat_le_iff by blast
  then have k: "real k \<le> 2 ^ 53 - 1" by simp
  have "(2::real) powi j \<le> 2 powi 971"
    using j by (intro power_int_increasing) auto
  with k show ?thesis by (intro mult_mono) auto
qed

lemma round_pos_finite_below:
  assumes P: "0 < P" and Q: "0 < Q" and wf: "well_formed (Finite t k j)"
    and le: "real P * 2 powi E \<le> real k * 2 powi j * real Q"
  shows "is_Finite (round_pos s P Q E)"
proof -
  define q where "q = max (flog2_frac P Q + E) (- 1022) - 52"
  have "real k * 2 powi j * real Q \<le> (2 ^ 53 - 1) * 2 powi 971 * real Q"
    using double_le_max [OF wf] by (intro mult_right_mono) auto
  with le have vmax: "real P * 2 powi E \<le> (2 ^ 53 - 1) * 2 powi 971 * real Q" by simp
  have "(2 ^ 53 - 1) * 2 powi 971 < (2 ^ 53 :: real) * 2 powi 971"
    by (intro mult_strict_right_mono) auto
  also have "\<dots> = 2 powi 1024"
    using p2_add [of 53 971] by simp
  finally have "(2 ^ 53 - 1) * 2 powi 971 * real Q < 2 powi 1024 * real Q"
    using Q by simp
  with vmax have "real P * 2 powi E < 2 powi 1024 * real Q" by simp
  then have "2 powi (flog2_frac P Q + E) * real Q < 2 powi 1024 * real Q"
    using round_pos_magnitude(1) [OF P Q, of E] by simp
  then have "(2::real) powi (flog2_frac P Q + E) < 2 powi 1024" using Q by simp
  then have "flog2_frac P Q + E < 1024" by (rule p2_less_exp)
  then have q: "q \<le> 971" by (simp add: q_def)
  have n: "rne_scaled P Q (E - q) \<noteq> 2 ^ 53" if "q = 971"
  proof -
    define c :: real where "c = 2 powi 971"
    have cpos: "0 < c" by (simp add: c_def)
    have "(2::real) powi (E - 971 + 971) = 2 powi (E - 971) * c"
      unfolding c_def by (rule p2_add)
    then have e1: "(2::real) powi E = 2 powi (E - 971) * c"
      by (simp only: diff_add_cancel)
    have "real P * 2 powi E \<le> (2 ^ 53 - 1) * c * real Q"
      using vmax unfolding c_def .
    then have "real P * 2 powi (E - 971) * c \<le> (2 ^ 53 - 1) * real Q * c"
      unfolding e1 by (simp only: mult_ac)
    then have "real P * 2 powi (E - 971) \<le> (2 ^ 53 - 1) * real Q"
      using cpos by (simp only: mult_le_cancel_right_pos)
    then have b: "real P * 2 powi (E - 971) \<le> real (2 ^ 53 - 1) * real Q"
      by simp
    have "rne_scaled P Q (E - 971) \<le> 2 ^ 53 - 1"
    proof (cases "real P * 2 powi (E - 971) = real (2 ^ 53 - 1) * real Q")
      case True
      with Q have "rne_scaled P Q (E - 971) = 2 ^ 53 - 1" by (rule rne_scaled_exact)
      then show ?thesis by simp
    next
      case False
      with b have "real P * 2 powi (E - 971) < real (2 ^ 53 - 1) * real Q" by simp
      with Q show ?thesis by (rule rne_scaled_le)
    qed
    then show ?thesis using that by simp
  qed
  show ?thesis
  proof (cases "q = 971")
    case True
    with n show ?thesis
      unfolding round_pos_unfold q_def [symmetric] by simp
  next
    case False
    with q have "q + 1 \<le> 971" by simp
    then show ?thesis
      unfolding round_pos_unfold q_def [symmetric] by simp
  qed
qed

lemma round_pos_at_most:
  assumes P: "0 < P" and Q: "0 < Q" and wf: "well_formed z" and z: "is_Finite z"
    and v: "v = (if s then - 1 else 1) * (real P * 2 powi E / real Q)" and le: "v \<le> valof z"
  shows "at_most (round_pos s P Q E) (valof z)"
proof (cases "is_Finite (round_pos s P Q E)")
  case True
  then have "\<bar>valof (round_pos s P Q E) - v\<bar> \<le> \<bar>valof z - v\<bar>"
    using P Q wf z v by (intro round_pos_nearest_value)
  with le have "valof (round_pos s P Q E) \<le> valof z" by linarith
  with True show ?thesis by (simp add: at_most_def)
next
  case False
  then have inf: "round_pos s P Q E = Infinity s"
    using round_pos_cases [of s P Q E] by auto
  have s
  proof (rule ccontr)
    assume "\<not> s"
    then have vpos: "v = real P * 2 powi E / real Q" using v by simp
    then have "0 < v" using P Q by simp
    obtain t k j where zz: "z = Finite t k j" using z by (cases z) simp_all
    have "\<not> t"
    proof
      assume t
      then have "valof z \<le> 0" by (simp add: zz valof_Finite)
      with le \<open>0 < v\<close> show False by simp
    qed
    then have "real P * 2 powi E / real Q \<le> real k * 2 powi j"
      using le vpos by (simp add: zz valof_Finite)
    then have "real P * 2 powi E \<le> real k * 2 powi j * real Q"
      using Q by (simp add: pos_divide_le_eq)
    with P Q wf [unfolded zz] have "is_Finite (round_pos s P Q E)"
      by (rule round_pos_finite_below)
    with False show False by simp
  qed
  with inf show ?thesis by (simp add: at_most_def)
qed

lemma round_pos_at_least:
  assumes P: "0 < P" and Q: "0 < Q" and wf: "well_formed z" and z: "is_Finite z"
    and v: "v = (if s then - 1 else 1) * (real P * 2 powi E / real Q)" and le: "valof z \<le> v"
  shows "at_least (round_pos s P Q E) (valof z)"
proof (cases "is_Finite (round_pos s P Q E)")
  case True
  then have "\<bar>valof (round_pos s P Q E) - v\<bar> \<le> \<bar>valof z - v\<bar>"
    using P Q wf z v by (intro round_pos_nearest_value)
  with le have "valof z \<le> valof (round_pos s P Q E)" by linarith
  with True show ?thesis by (simp add: at_least_def)
next
  case False
  then have inf: "round_pos s P Q E = Infinity s"
    using round_pos_cases [of s P Q E] by auto
  have "\<not> s"
  proof
    assume s
    then have vneg: "v = - (real P * 2 powi E / real Q)" using v by simp
    then have "v < 0" using P Q by simp
    obtain t k j where zz: "z = Finite t k j" using z by (cases z) simp_all
    have t
    proof (rule ccontr)
      assume "\<not> t"
      then have "0 \<le> valof z" by (simp add: zz valof_Finite)
      with le \<open>v < 0\<close> show False by simp
    qed
    then have "real P * 2 powi E / real Q \<le> real k * 2 powi j"
      using le vneg by (simp add: zz valof_Finite)
    then have "real P * 2 powi E \<le> real k * 2 powi j * real Q"
      using Q by (simp add: pos_divide_le_eq)
    with P Q wf [unfolded zz] have "is_Finite (round_pos s P Q E)"
      by (rule round_pos_finite_below)
    with False show False by simp
  qed
  with inf show ?thesis by (simp add: at_least_def)
qed

lemma fadd_rounded:
  assumes "is_Finite x" "is_Finite y"
  obtains (zero) "valof x + valof y = 0" "is_Finite (fadd x y)" "valof (fadd x y) = 0"
  | (round) s P E where "0 < P" "fadd x y = round_pos s P 1 E"
      "valof x + valof y = (if s then - 1 else 1) * (real P * 2 powi E / real 1)"
proof -
  obtain s m e where x: "x = Finite s m e" using assms(1) by (cases x) simp_all
  obtain t n f where y: "y = Finite t n f" using assms(2) by (cases y) simp_all
  define g where "g = min e f"
  define a where "a = (if s then - 1 else 1) * int (m * 2 ^ nat (e - g))"
  define b where "b = (if t then - 1 else 1) * int (n * 2 ^ nat (f - g))"
  have unfold: "fadd x y =
      (if a + b = 0 then zero (s \<and> t) else round_pos (a + b < 0) (nat \<bar>a + b\<bar>) 1 g)"
    unfolding x y by (simp only: fadd.simps Let_def g_def a_def b_def)
  have "real_of_int a * 2 powi g = valof x"
    unfolding a_def x by (rule aligned) (simp add: g_def)
  moreover have "real_of_int b * 2 powi g = valof y"
    unfolding b_def y by (rule aligned) (simp add: g_def)
  ultimately have sum: "real_of_int (a + b) * 2 powi g = valof x + valof y"
    by (simp add: algebra_simps)
  show ?thesis
  proof (cases "a + b = 0")
    case True
    then have "valof x + valof y = 0" using sum by simp
    moreover have "fadd x y = zero (s \<and> t)" using True by (simp add: unfold)
    ultimately show ?thesis by (intro zero) (simp_all add: valof_zero, simp add: zero_def)
  next
    case False
    have r: "fadd x y = round_pos (a + b < 0) (nat \<bar>a + b\<bar>) 1 g"
      using False by (simp add: unfold)
    have "valof x + valof y =
        (if a + b < 0 then - 1 else 1) * (real (nat \<bar>a + b\<bar>) * 2 powi g / real 1)"
      using sum by (simp add: algebra_simps)
    moreover have "0 < nat \<bar>a + b\<bar>" using False by simp
    ultimately show ?thesis using r by (intro round)
  qed
qed

lemma fmul_rounded:
  assumes "is_Finite x" "is_Finite y"
  obtains (zero) "valof x * valof y = 0" "is_Finite (fmul x y)" "valof (fmul x y) = 0"
  | (round) s P E where "0 < P" "fmul x y = round_pos s P 1 E"
      "valof x * valof y = (if s then - 1 else 1) * (real P * 2 powi E / real 1)"
proof -
  obtain s m e where x: "x = Finite s m e" using assms(1) by (cases x) simp_all
  obtain t n f where y: "y = Finite t n f" using assms(2) by (cases y) simp_all
  have prod: "valof x * valof y = (if s \<noteq> t then - 1 else 1) * (real (m * n) * 2 powi (e + f))"
    unfolding x y by (cases s; cases t) (simp_all add: valof_Finite p2_add)
  show ?thesis
  proof (cases "m * n = 0")
    case True
    then have "valof x * valof y = 0" using prod by simp
    moreover have "fmul x y = zero (s \<noteq> t)" using True by (simp add: x y)
    ultimately show ?thesis by (intro zero) (simp_all add: valof_zero, simp add: zero_def)
  next
    case False
    have r: "fmul x y = round_pos (s \<noteq> t) (m * n) 1 (e + f)"
      using False by (simp add: x y)
    have "valof x * valof y =
        (if s \<noteq> t then - 1 else 1) * (real (m * n) * 2 powi (e + f) / real 1)"
      using prod by simp
    moreover have "0 < m * n" using False by simp
    ultimately show ?thesis using r by (intro round)
  qed
qed

lemma fadd_at_most:
  assumes "is_Finite x" "is_Finite y" "representable r" "valof x + valof y \<le> r"
  shows "at_most (fadd x y) r"
proof -
  obtain z where z: "well_formed z" "is_Finite z" "valof z = r"
    using assms(3) unfolding representable_def by blast
  from assms(1,2) show ?thesis
  proof (cases rule: fadd_rounded)
    case zero
    then show ?thesis using assms(4) by (simp add: at_most_def)
  next
    case (round s P E)
    have "at_most (round_pos s P 1 E) (valof z)"
      using round(1) _ z(1,2) round(3) by (rule round_pos_at_most) (use assms(4) z(3) in simp_all)
    then show ?thesis by (simp add: round(2) z(3))
  qed
qed

lemma fadd_at_least:
  assumes "is_Finite x" "is_Finite y" "representable r" "r \<le> valof x + valof y"
  shows "at_least (fadd x y) r"
proof -
  obtain z where z: "well_formed z" "is_Finite z" "valof z = r"
    using assms(3) unfolding representable_def by blast
  from assms(1,2) show ?thesis
  proof (cases rule: fadd_rounded)
    case zero
    then show ?thesis using assms(4) by (simp add: at_least_def)
  next
    case (round s P E)
    have "at_least (round_pos s P 1 E) (valof z)"
      using round(1) _ z(1,2) round(3) by (rule round_pos_at_least) (use assms(4) z(3) in simp_all)
    then show ?thesis by (simp add: round(2) z(3))
  qed
qed

lemma fmul_at_most:
  assumes "is_Finite x" "is_Finite y" "representable r" "valof x * valof y \<le> r"
  shows "at_most (fmul x y) r"
proof -
  obtain z where z: "well_formed z" "is_Finite z" "valof z = r"
    using assms(3) unfolding representable_def by blast
  from assms(1,2) show ?thesis
  proof (cases rule: fmul_rounded)
    case zero
    have "0 \<le> r" using zero(1) assms(4) by linarith
    then show ?thesis using zero(2,3) by (simp add: at_most_def)
  next
    case (round s P E)
    have "at_most (round_pos s P 1 E) (valof z)"
      using round(1) _ z(1,2) round(3) by (rule round_pos_at_most) (use assms(4) z(3) in simp_all)
    then show ?thesis by (simp add: round(2) z(3))
  qed
qed

lemma fmul_at_least:
  assumes "is_Finite x" "is_Finite y" "representable r" "r \<le> valof x * valof y"
  shows "at_least (fmul x y) r"
proof -
  obtain z where z: "well_formed z" "is_Finite z" "valof z = r"
    using assms(3) unfolding representable_def by blast
  from assms(1,2) show ?thesis
  proof (cases rule: fmul_rounded)
    case zero
    have "r \<le> 0" using zero(1) assms(4) by linarith
    then show ?thesis using zero(2,3) by (simp add: at_least_def)
  next
    case (round s P E)
    have "at_least (round_pos s P 1 E) (valof z)"
      using round(1) _ z(1,2) round(3) by (rule round_pos_at_least) (use assms(4) z(3) in simp_all)
    then show ?thesis by (simp add: round(2) z(3))
  qed
qed

lemma fsub_at_most:
  assumes "at_most a ra" "at_least p rp" "representable (ra - rp)"
  shows "at_most (fsub a p) (ra - rp)"
proof (cases "is_Finite a \<and> is_Finite p")
  case True
  then have "valof a + valof (fneg p) \<le> ra - rp"
    using assms(1,2) by (auto simp add: at_most_def at_least_def valof_fneg)
  with True assms(3) have "at_most (fadd a (fneg p)) (ra - rp)"
    by (intro fadd_at_most) (simp_all add: is_Finite_fneg)
  then show ?thesis by (simp add: fsub_def)
next
  case False
  then have "fsub a p = Infinity True"
    using assms(1,2) by (cases a; cases p) (auto simp add: at_most_def at_least_def fsub_def)
  then show ?thesis by (simp add: at_most_def)
qed

lemma fsub_at_least:
  assumes "at_least a ra" "at_most p rp" "representable (ra - rp)"
  shows "at_least (fsub a p) (ra - rp)"
proof (cases "is_Finite a \<and> is_Finite p")
  case True
  then have "ra - rp \<le> valof a + valof (fneg p)"
    using assms(1,2) by (auto simp add: at_most_def at_least_def valof_fneg)
  with True assms(3) have "at_least (fadd a (fneg p)) (ra - rp)"
    by (intro fadd_at_least) (simp_all add: is_Finite_fneg)
  then show ?thesis by (simp add: fsub_def)
next
  case False
  then have "fsub a p = Infinity False"
    using assms(1,2) by (cases a; cases p) (auto simp add: at_most_def at_least_def fsub_def)
  then show ?thesis by (simp add: at_least_def)
qed

section \<open>Some computations\<close>

text \<open>The named numbers are numbers of the format and stand for what their names say.\<close>

lemma named_values:
  "valof one = 1" "valof two = 2" "valof three = 3" "valof four = 4" "valof six = 6"
  "valof eight = 8" "valof ten = 10" "valof half = 1 / 2" "valof minus_two_53 = - (2 ^ 53)"
  "valof dbl_max = (2 ^ 53 - 1) * 2 ^ 971" "valof below_dbl_max = (2 ^ 53 - 2) * 2 ^ 971"
  by (simp_all add: valof_def one_def two_def three_def four_def six_def eight_def ten_def
      half_def minus_two_53_def dbl_max_def below_dbl_max_def)

lemma named_well_formed:
  "well_formed one" "well_formed two" "well_formed three" "well_formed four" "well_formed six"
  "well_formed eight" "well_formed ten" "well_formed half" "well_formed minus_two_53"
  "well_formed dbl_max" "well_formed below_dbl_max"
  by (simp_all add: well_formed_def one_def two_def three_def four_def six_def eight_def ten_def
      half_def minus_two_53_def dbl_max_def below_dbl_max_def)

text \<open>
  Known values of binary64: \<open>0.1\<close> is \<open>0x3FB999999999999A\<close>, \<open>0.1 + 0.2\<close> is
  \<open>0x3FD3333333333334\<close> and not \<open>0.3\<close>, \<open>1 / 3\<close> is \<open>0x3FD5555555555555\<close>; halves of
  subnormal numbers round to even; \<open>DBL_MAX\<close> plus half a unit of its last place is an
  infinity, plus less than that is \<open>DBL_MAX\<close>.
\<close>

lemma one_tenth: "fdiv one ten = Finite False 0x1999999999999A (- 56)"
  by (simp add: arith_eval)

lemma two_tenths: "fdiv two ten = Finite False 0x1999999999999A (- 55)"
  by (simp add: arith_eval)

lemma three_tenths: "fdiv three ten = Finite False 0x13333333333333 (- 54)"
  by (simp add: arith_eval)

lemma one_tenth_plus_two_tenths:
  "fadd (fdiv one ten) (fdiv two ten) = Finite False 0x13333333333334 (- 54)"
  by (simp add: one_tenth two_tenths) (simp add: arith_eval)

lemma one_third: "fdiv one three = Finite False 0x15555555555555 (- 54)"
  by (simp add: arith_eval)

lemma least_subnormal_half: "fdiv (Finite False 1 (- 1074)) two = zero False"
  by (simp add: arith_eval)

lemma three_subnormal_halves: "fdiv (Finite False 3 (- 1074)) two = Finite False 2 (- 1074)"
  by (simp add: arith_eval)

lemma dbl_max_plus_half_ulp: "fadd dbl_max (Finite False (2 ^ 52) 918) = Infinity False"
  by (simp add: arith_eval)

lemma dbl_max_plus_less: "fadd dbl_max (Finite False 9007199254740991 917) = dbl_max"
  by (simp add: arith_eval)

lemma minus_two_53_minus_one: "fsub minus_two_53 one = minus_two_53"
  by (simp add: arith_eval)

lemma minus_two_53_minus_two: "fsub minus_two_53 two = Finite True (2 ^ 52 + 1) 1"
  by (simp add: arith_eval)

lemma fsub_zero_left:
  assumes "well_formed x" "is_Finite x" "\<not> is_zero x"
  shows "fsub (zero t) x = fneg x"
proof -
  obtain s m e where x: "x = Finite s m e" using assms(2) by (cases x) simp_all
  have "fadd (Finite t 0 (- 1074)) (Finite (\<not> s) m e) = Finite (\<not> s) m e"
    using assms by (intro fadd_exact) (simp_all add: x well_formed_def is_zero_def valof_def)
  then show ?thesis by (simp add: x fsub_def zero_def)
qed

lemma zero_minus_two: "fsub (zero False) two = fneg two"
  by (rule fsub_zero_left) (simp_all add: two_def well_formed_def is_zero_def)

lemma minus_two_minus_two: "fsub (fneg two) two = fneg four"
  by (simp add: arith_eval)

lemma minus_four_minus_two: "fsub (fneg four) two = fneg six"
  by (simp add: arith_eval)

lemma minus_six_minus_two: "fsub (fneg six) two = fneg eight"
  by (simp add: arith_eval)

lemma minus_eight_minus_two: "fsub (fneg eight) two = fneg ten"
  by (simp add: arith_eval)

lemma dbl_max_plus_dbl_max: "fadd dbl_max dbl_max = Infinity False"
  by (simp add: arith_eval)

lemma infinity_half: "fdiv (Infinity s) two = Infinity s"
  by (simp add: two_def)

lemma infinity_times_one: "fmul (Infinity s) one = Infinity s"
  by (simp add: one_def)

lemma zero_minus_infinity: "fsub (zero False) (Infinity False) = Infinity True"
  by (simp add: arith_eval)

lemma dbl_max_times_one: "fmul dbl_max one = dbl_max"
  by (simp add: arith_eval)

lemma zero_minus_dbl_max: "fsub (zero False) dbl_max = fneg dbl_max"
  by (rule fsub_zero_left) (simp_all add: dbl_max_def well_formed_def is_zero_def)

lemma infinity_times_zero: "fmul (Infinity s) (zero t) = NaN"
  by (simp add: zero_def)

lemma one_minus_nan: "fsub one NaN = NaN"
  by (simp add: one_def fsub_def)

lemma two_plus_two: "fadd two two = four"
  by (simp add: arith_eval)

lemma valof_minus_ten: "valof (fneg ten) = - 10"
  by (simp add: valof_def ten_def)

lemma valof_some: "valof minus_two_53 = - (2 ^ 53)" "valof one = 1"
  by (simp_all add: valof_def minus_two_53_def one_def)

lemma well_formed_some: "well_formed two" "well_formed one" "well_formed (zero s)"
  by (simp_all add: well_formed_def two_def one_def zero_def)

lemma well_formed_dbl_max: "well_formed dbl_max"
  by (simp add: well_formed_def dbl_max_def)

lemma replicate_1: "replicate 1 x = [x]"
  by simp

lemma replicate_2: "replicate 2 x = [x, x]"
  by (simp add: numeral_2_eq_2)

lemma replicate_5: "replicate 5 x = [x, x, x, x, x]"
  by (simp add: eval_nat_numeral)

lemma three_plus_two: "fadd three two = Finite False (5 * 2 ^ 50) (- 50)"
  by (simp add: arith_eval)

lemma below_dbl_max_twice: "fadd below_dbl_max below_dbl_max = Infinity False"
  by (simp add: below_dbl_max_def arith_eval)

lemma dbl_max_plus_below: "fadd dbl_max below_dbl_max = Infinity False"
  by (simp add: below_dbl_max_def arith_eval)

lemma infinity_times_half: "fmul (Infinity s) half = Infinity s"
  by (simp add: half_def)

lemma minus_infinity_minus_infinity: "fsub (Infinity True) (Infinity False) = Infinity True"
  by (simp add: fsub_def)

lemma below_dbl_max_times_half: "fmul below_dbl_max half = Finite False 9007199254740990 970"
  by (simp add: below_dbl_max_def half_def arith_eval)

lemma dbl_max_times_half: "fmul dbl_max half = Finite False 9007199254740991 970"
  by (simp add: half_def arith_eval)

lemma zero_minus_below_half:
  "fsub (zero False) (Finite False 9007199254740990 970) = Finite True 9007199254740990 970"
  using fsub_zero_left [of "Finite False 9007199254740990 970" False]
  by (simp add: well_formed_def is_zero_def)

lemma euler_last_step:
  "fsub (Finite True 9007199254740990 970) (Finite False 9007199254740991 970) =
     Finite True 9007199254740990 971"
  by (simp add: arith_eval)

text \<open>
  Around \<open>2 ^ 54\<close>: the sum \<open>(2 ^ 54 - 2) + (2 ^ 54 - 4)\<close> is \<open>2 ^ 55 - 6\<close>, half way between
  the doubles \<open>2 ^ 55 - 8\<close> and \<open>2 ^ 55 - 4\<close>, and rounds to the former; \<open>3 * 2 ^ 54 - 12\<close>
  is half way between \<open>3 * 2 ^ 54 - 16\<close> and \<open>3 * 2 ^ 54 - 8\<close> and rounds to the former.
\<close>

lemma two_54_values:
  "valof two_54_less_4 = 2 ^ 54 - 4" "valof two_54_less_2 = 2 ^ 54 - 2"
  "well_formed two_54_less_4" "well_formed two_54_less_2"
  by (simp_all add: two_54_less_4_def two_54_less_2_def valof_def well_formed_def)

lemma two_54_less_4_twice: "fadd two_54_less_4 two_54_less_4 = Finite False 9007199254740990 2"
  by (simp add: two_54_less_4_def arith_eval)

lemma two_55_less_8_half: "fdiv (Finite False 9007199254740990 2) two = two_54_less_4"
  by (simp add: two_54_less_4_def arith_eval)

lemma two_54_less_4_times_one: "fmul two_54_less_4 one = two_54_less_4"
  by (simp add: two_54_less_4_def arith_eval)

lemma zero_minus_two_54_less_4: "fsub (zero False) two_54_less_4 = fneg two_54_less_4"
  by (rule fsub_zero_left) (simp_all add: two_54_less_4_def well_formed_def is_zero_def)

lemma two_55_less_6_rounds:
  "fadd two_54_less_2 two_54_less_4 = Finite False 9007199254740990 2"
  by (simp add: two_54_less_4_def two_54_less_2_def arith_eval)

lemma two_54_less_4_times_two: "fmul two_54_less_4 two = Finite False 9007199254740990 2"
  by (simp add: two_54_less_4_def arith_eval)

lemma trapez_last_step_rounds:
  "fsub (fneg two_54_less_4) (Finite False 9007199254740990 2) =
     Finite True 6755399441055742 3"
  by (simp add: two_54_less_4_def arith_eval)

lemma two_54_less_2_times_two: "fmul two_54_less_2 two = Finite False 9007199254740991 2"
  by (simp add: two_54_less_2_def arith_eval)

lemma euler_last_step_exact:
  "fsub (fneg two_54_less_4) (Finite False 9007199254740991 2) =
     Finite True 6755399441055743 3"
  by (simp add: two_54_less_4_def arith_eval)

text \<open>Some representable numbers.\<close>

lemma representable_some:
  "representable 1" "representable 2" "representable 3" "representable (- 1)"
  "representable (- 3)" "representable (3 / 2)" "representable (- (5 / 2))"
  "representable (- (1 / 2))" "representable (- 2)" "representable 0" "representable (1 / 2)"
proof -
  show "representable 1"
    by (rule representableI [of "Finite False (2 ^ 52) (- 52)"])
      (simp_all add: well_formed_def valof_def)
  show "representable 2"
    by (rule representableI [of "Finite False (2 ^ 52) (- 51)"])
      (simp_all add: well_formed_def valof_def)
  show "representable 3"
    by (rule representableI [of "Finite False (3 * 2 ^ 51) (- 51)"])
      (simp_all add: well_formed_def valof_def)
  show "representable (- 1)"
    by (rule representableI [of "Finite True (2 ^ 52) (- 52)"])
      (simp_all add: well_formed_def valof_def)
  show "representable (- 3)"
    by (rule representableI [of "Finite True (3 * 2 ^ 51) (- 51)"])
      (simp_all add: well_formed_def valof_def)
  show "representable (3 / 2)"
    by (rule representableI [of "Finite False (3 * 2 ^ 51) (- 52)"])
      (simp_all add: well_formed_def valof_def)
  show "representable (- (5 / 2))"
    by (rule representableI [of "Finite True (5 * 2 ^ 50) (- 51)"])
      (simp_all add: well_formed_def valof_def)
  show "representable (- (1 / 2))"
    by (rule representableI [of "Finite True (2 ^ 52) (- 53)"])
      (simp_all add: well_formed_def valof_def)
  show "representable (- 2)"
    by (rule representableI [of "Finite True (2 ^ 52) (- 51)"])
      (simp_all add: well_formed_def valof_def)
  show "representable 0"
    by (rule representableI [of "Finite False 0 (- 1074)"])
      (simp_all add: well_formed_def valof_def)
  show "representable (1 / 2)"
    by (rule representableI [of "Finite False (2 ^ 52) (- 53)"])
      (simp_all add: well_formed_def valof_def)
qed

section \<open>One call\<close>

text \<open>
  C1. After a call of the Euler text the accumulator \<open>*i\<close> holds \<open>a - y * dx\<close>, where \<open>a\<close>
  is what it held before, for every store, every address and every \<open>y\<close> and \<open>dx\<close>; the
  product and the difference are those of \<open>double\<close>, each correctly rounded
  (\<open>fmul_nearest\<close>, \<open>fadd_nearest\<close>).
\<close>

theorem integrate_euler_accumulator:
  "integrate_euler h i y dx y_old i = fsub (h i) (fmul y dx)"
  by (simp add: integrate_euler_def)

text \<open>
  C9. Two calls of the Euler text on stores that agree on the accumulator \<open>*i\<close>, with the
  same \<open>y\<close> and \<open>dx\<close>, leave the same accumulator, whatever the stores hold elsewhere and
  whatever addresses are passed for \<open>y_old\<close>.
\<close>

theorem integrate_euler_ignores_y_old:
  "h1 i = h2 i \<Longrightarrow>
   integrate_euler h1 i y dx y_old1 i = integrate_euler h2 i y dx y_old2 i"
  by (simp add: integrate_euler_def)

theorem integrate_euler_ignores_y_old_witness:
  "(blank(0 := one, 1 := two)) 0 = (blank(0 := one, 1 := three)) 0 \<and>
   integrate_euler (blank(0 := one, 1 := two)) 0 one one 1 0 =
   integrate_euler (blank(0 := one, 1 := three)) 0 one one 1 0"
  using integrate_euler_ignores_y_old
    [of "blank(0 := one, 1 := two)" 0 "blank(0 := one, 1 := three)" one one 1 1]
  by simp

text \<open>
  C8 fails when \<open>y_old\<close> is the address of the accumulator itself: with \<open>*i = 1.\<close>, \<open>y = 1.\<close>,
  \<open>dx = 1.\<close> and \<open>y_old = i\<close> the cell \<open>*y_old\<close> holds \<open>1.\<close> before the call and \<open>0.\<close> after it.
\<close>

theorem integrate_euler_alias_counterexample:
  "integrate_euler (blank(0 := one)) 0 one one 0 0 \<noteq> (blank(0 := one)) 0"
  by (simp add: integrate_euler_def one_times_one one_minus_one) (simp add: one_def zero_def)

text \<open>
  C8, amended. A call of the Euler text changes no cell but the accumulator \<open>*i\<close>, whatever
  address is passed for \<open>y_old\<close>; so \<open>*y_old\<close> keeps its value whenever \<open>y_old\<close> is not the
  address of the accumulator.
\<close>

theorem integrate_euler_frame:
  "(p \<noteq> i \<longrightarrow> integrate_euler h i y dx y_old p = h p) \<and>
   (y_old \<noteq> i \<longrightarrow> integrate_euler h i y dx y_old y_old = h y_old)"
  by (simp add: integrate_euler_def)

text \<open>
  Two calls on the accumulator at address 0: one with \<open>y_old = i\<close>, which leaves the cell at
  address 1 as it was, and one with \<open>y_old\<close> at address 1, which leaves \<open>*y_old\<close> as it was.
\<close>

theorem integrate_euler_frame_witness:
  "(1::addr) \<noteq> 0 \<and>
   integrate_euler (blank(0 := one, 1 := two)) 0 one one 0 1 = (blank(0 := one, 1 := two)) 1 \<and>
   integrate_euler (blank(0 := one, 1 := two)) 0 one one 1 1 = (blank(0 := one, 1 := two)) 1"
  using integrate_euler_frame [of 1 0 "blank(0 := one, 1 := two)" one one 0]
    integrate_euler_frame [of 1 0 "blank(0 := one, 1 := two)" one one 1]
  by simp

text \<open>
  C2 fails when both pointers are the same address: with \<open>*i = 1.\<close>, \<open>y = 3.\<close>, \<open>dx = 1.\<close> and
  \<open>y_old = i\<close> the first statement stores \<open>1 - (3 + 1) / 2 * 1 = - 1\<close>, the second overwrites
  it, and the accumulator holds \<open>3.\<close> on return.
\<close>

theorem integrate_trapez_alias_counterexample:
  "integrate_trapez (blank(0 := one)) 0 three one 0 0 \<noteq>
   fsub ((blank(0 := one)) 0) (fmul (fdiv (fadd three ((blank(0 := one)) 0)) two) one)"
  by (simp add: integrate_trapez_def three_plus_one four_half two_times_one one_minus_two)
     (simp add: three_def one_def)

text \<open>
  C2, amended. When \<open>i\<close> and \<open>y_old\<close> are different addresses, a call of the trapezoidal
  text leaves \<open>a - (y + y_old) / 2 * dx\<close> in the accumulator, \<open>a\<close> and \<open>y_old\<close> being the
  values held before the call and the operations those of \<open>double\<close>, and leaves \<open>y\<close> in
  \<open>*y_old\<close>.
\<close>

theorem integrate_trapez_effect:
  "i \<noteq> y_old \<Longrightarrow>
   integrate_trapez h i y dx y_old i = fsub (h i) (fmul (fdiv (fadd y (h y_old)) two) dx) \<and>
   integrate_trapez h i y dx y_old y_old = y"
  by (simp add: integrate_trapez_def)

theorem integrate_trapez_effect_witness:
  "(0::addr) \<noteq> 1 \<and>
   integrate_trapez (blank(0 := one, 1 := one)) 0 three one 1 0 =
     fsub ((blank(0 := one, 1 := one)) 0)
       (fmul (fdiv (fadd three ((blank(0 := one, 1 := one)) 1)) two) one) \<and>
   integrate_trapez (blank(0 := one, 1 := one)) 0 three one 1 1 = three"
  using integrate_trapez_effect [of 0 1 "blank(0 := one, 1 := one)" three one]
  by simp

section \<open>The choice of the rule\<close>

text \<open>
  The header defines the trapezoidal text whenever \<^verbatim>\<open>TRAPEZ\<close> is defined, the Euler text
  when neither macro is, and no \<^verbatim>\<open>__integrate\<close> exactly when \<^verbatim>\<open>RK\<close> is defined and \<^verbatim>\<open>TRAPEZ\<close>
  is not: the branch of \<^verbatim>\<open>RK\<close> is empty, it holds no body and no error.
\<close>

lemma integrate_selection:
  "integrate True RK = Some integrate_trapez"
  "integrate False False = Some integrate_euler"
  "(integrate TRAPEZ RK = None) = (RK \<and> \<not> TRAPEZ)"
  by (simp_all add: integrate_def)

section \<open>Step size zero\<close>

text \<open>
  C6 fails where the sum \<open>y + *y_old\<close> overflows: with accumulator \<open>1.\<close>, \<open>y\<close> and \<open>*y_old\<close> both
  \<open>DBL_MAX\<close> and \<open>dx = 0.\<close> the trapezoidal text computes \<open>y + *y_old = \<infinity>\<close>, \<open>\<infinity> / 2 = \<infinity>\<close>,
  \<open>\<infinity> * 0 = NaN\<close> and leaves \<open>NaN\<close> in the accumulator.
\<close>

theorem zero_step_overflow_counterexample:
  "integrate_trapez (blank(0 := one, 1 := dbl_max)) 0 dbl_max (zero False) 1 0 = NaN \<and>
   integrate_trapez (blank(0 := one, 1 := dbl_max)) 0 dbl_max (zero False) 1 0 \<noteq>
     (blank(0 := one, 1 := dbl_max)) 0"
  by (simp add: integrate_trapez_def dbl_max_plus_dbl_max infinity_half infinity_times_zero
      one_minus_nan)
     (simp add: one_def)

text \<open>
  C6, amended. With a step size that is a zero of either sign and a finite sample \<open>y\<close>, a
  call of the Euler text leaves the accumulator the same number as before, for every
  accumulator (finite, infinite or NaN) and whatever \<open>y_old\<close> is and holds; so does a call
  of the trapezoidal text when \<open>i\<close> and \<open>y_old\<close> are different addresses and the sum
  \<open>y + *y_old\<close> is finite. The same number: the same double, or a zero where it was a zero
  (a zero accumulator can change its sign).
\<close>

theorem zero_step_keeps_accumulator:
  assumes "well_formed (h i)" "is_zero dx" "is_Finite y"
  shows "same_number (integrate_euler h i y dx y_old i) (h i) \<and>
    (i \<noteq> y_old \<and> is_Finite (fadd y (h y_old)) \<longrightarrow>
      same_number (integrate_trapez h i y dx y_old i) (h i))"
proof -
  have "is_zero (fmul y dx)"
    using assms(3,2) by (rule fmul_zero)
  then have euler: "same_number (fsub (h i) (fmul y dx)) (h i)"
    using assms(1) by (intro fsub_zero)
  have trapez: "same_number (fsub (h i) (fmul (fdiv (fadd y (h y_old)) two) dx)) (h i)"
    if "is_Finite (fadd y (h y_old))"
  proof -
    have "is_Finite (fdiv (fadd y (h y_old)) two)"
      using that by (intro fdiv_two_finite fadd_well_formed)
    then have "is_zero (fmul (fdiv (fadd y (h y_old)) two) dx)"
      using assms(2) by (rule fmul_zero)
    then show ?thesis
      using assms(1) by (intro fsub_zero)
  qed
  show ?thesis
    using euler trapez by (simp add: integrate_euler_def integrate_trapez_def)
qed

text \<open>
  Two calls with step size zero: one on distinct cells with the sum \<open>3. + 2.\<close>, under both
  texts; and one of the Euler text with \<open>y_old = i\<close>, the accumulator and the sample both
  \<open>DBL_MAX\<close> and the step \<open>- 0.\<close>.
\<close>

theorem zero_step_keeps_accumulator_witness:
  "well_formed ((blank(0 := one, 1 := two)) 0) \<and> is_zero (zero False) \<and> is_Finite three \<and>
   (0::addr) \<noteq> 1 \<and> is_Finite (fadd three ((blank(0 := one, 1 := two)) 1)) \<and>
   same_number (integrate_euler (blank(0 := one, 1 := two)) 0 three (zero False) 1 0)
     ((blank(0 := one, 1 := two)) 0) \<and>
   same_number (integrate_trapez (blank(0 := one, 1 := two)) 0 three (zero False) 1 0)
     ((blank(0 := one, 1 := two)) 0) \<and>
   well_formed ((blank(0 := dbl_max)) 0) \<and> is_Finite dbl_max \<and>
   same_number (integrate_euler (blank(0 := dbl_max)) 0 dbl_max (zero True) 0 0)
     ((blank(0 := dbl_max)) 0)"
proof -
  have a: "well_formed ((blank(0 := one, 1 := two)) 0)" by (simp add: well_formed_some)
  have b: "is_zero (zero False)" "is_zero (zero True)" by (simp_all add: is_zero_def zero_def)
  have c: "is_Finite three" by (simp add: three_def)
  have d: "is_Finite (fadd three ((blank(0 := one, 1 := two)) 1))" by (simp add: three_plus_two)
  have e: "(0::addr) \<noteq> 1" by simp
  have f: "well_formed ((blank(0 := dbl_max)) 0)" by (simp add: well_formed_dbl_max)
  have g: "is_Finite dbl_max" by (simp add: dbl_max_def)
  show ?thesis
    using zero_step_keeps_accumulator
      [where h = "blank(0 := one, 1 := two)" and i = 0 and y_old = 1 and y = three
         and dx = "zero False", OF a b(1) c]
      zero_step_keeps_accumulator
      [where h = "blank(0 := dbl_max)" and i = 0 and y_old = 0 and y = dbl_max
         and dx = "zero True", OF f b(2) g]
      a b c d e f g by blast
qed

text \<open>Further ways in which a call with step size zero changes the accumulator.\<close>

lemma zero_step_infinite_sample:
  "integrate_euler (blank(0 := one)) 0 (Infinity False) (zero False) 1 0 = NaN"
  by (simp add: integrate_euler_def infinity_times_zero one_minus_nan)

lemma zero_step_alias:
  "integrate_trapez (blank(0 := one)) 0 three (zero False) 0 0 = three"
  by (simp add: integrate_trapez_def)

lemma zero_step_sign_of_zero:
  "integrate_euler (blank(0 := zero True)) 0 (fneg one) (zero False) 1 0 = zero False"
  by (simp add: integrate_euler_def arith_eval)

section \<open>Repeated calls over exact real arithmetic\<close>

lemma euler_steps_exact_sum:
  "euler_steps_exact h i y_old ps = h(i := h i - (\<Sum>(y, dx)\<leftarrow>ps. y * dx))"
proof (induction ps arbitrary: h)
  case Nil
  show ?case by simp
next
  case (Cons p ps)
  obtain y dx where p: "p = (y, dx)" by (cases p)
  show ?case
    by (simp add: p Cons.IH integrate_euler_exact_def fun_eq_iff)
qed

text \<open>
  C10. Over exact real arithmetic the accumulator after one Euler call for each pair of a
  list is the same for every rearrangement of the list.
\<close>

theorem euler_steps_exact_permutation:
  "mset ps = mset qs \<Longrightarrow>
   euler_steps_exact h i y_old ps i = euler_steps_exact h i y_old qs i"
proof -
  assume "mset ps = mset qs"
  then have "mset (map (\<lambda>(y, dx). y * dx) ps) = mset (map (\<lambda>(y, dx). y * dx) qs)"
    by (metis mset_map)
  then have "(\<Sum>(y, dx)\<leftarrow>ps. y * dx) = (\<Sum>(y, dx)\<leftarrow>qs. y * dx)"
    by (metis sum_mset_sum_list)
  then show ?thesis
    by (simp add: euler_steps_exact_sum)
qed

theorem euler_steps_exact_permutation_witness:
  "mset [(1, 2), (3, 4), (5, 6 :: real)] = mset [(5, 6), (1, 2), (3, 4 :: real)] \<and>
   euler_steps_exact (\<lambda>a. 0) 0 1 [(1, 2), (3, 4), (5, 6)] 0 =
   euler_steps_exact (\<lambda>a. 0) 0 1 [(5, 6), (1, 2), (3, 4)] 0"
  using euler_steps_exact_permutation
    [of "[(1, 2), (3, 4), (5, 6)]" "[(5, 6), (1, 2), (3, 4)]" "\<lambda>a. 0" 0 1]
  by simp

section \<open>Runs in which no operation rounds\<close>

text \<open>
  When the exact result of every operation of a run is representable, the run on doubles
  computes what the run over exact real arithmetic computes: every cell of the final store
  stands for the number in the same cell of the exact run.
\<close>

lemma integrate_euler_no_rounding:
  assumes "is_Finite (h i)" "is_Finite y" "is_Finite dx"
    "representable (valof y * valof dx)" "representable (valof (h i) - valof y * valof dx)"
  shows "is_Finite (integrate_euler h i y dx y_old i)"
    and "(\<lambda>a. valof (integrate_euler h i y dx y_old a)) =
      integrate_euler_exact (\<lambda>a. valof (h a)) i (valof y) (valof dx) y_old"
proof -
  have p: "is_Finite (fmul y dx) \<and> valof (fmul y dx) = valof y * valof dx"
    using assms(2-4) by (rule fmul_representable)
  then have "representable (valof (h i) - valof (fmul y dx))"
    using assms(5) by simp
  with assms(1) p
  have r: "is_Finite (fsub (h i) (fmul y dx)) \<and>
      valof (fsub (h i) (fmul y dx)) = valof (h i) - valof (fmul y dx)"
    by (intro fsub_representable) simp_all
  show "is_Finite (integrate_euler h i y dx y_old i)"
    using r by (simp add: integrate_euler_def)
  show "(\<lambda>a. valof (integrate_euler h i y dx y_old a)) =
      integrate_euler_exact (\<lambda>a. valof (h a)) i (valof y) (valof dx) y_old"
    using r p by (simp add: integrate_euler_def integrate_euler_exact_def fun_eq_iff)
qed

lemma euler_steps_no_rounding:
  "is_Finite (h i) \<Longrightarrow> finite_pairs ps \<Longrightarrow>
   euler_no_rounding (\<lambda>a. valof (h a)) i y_old (values_of ps) \<Longrightarrow>
   is_Finite (euler_steps h i y_old ps i) \<and>
   (\<lambda>a. valof (euler_steps h i y_old ps a)) = euler_steps_exact (\<lambda>a. valof (h a)) i y_old (values_of ps)"
proof (induction ps arbitrary: h)
  case Nil
  then show ?case by (simp add: values_of_def)
next
  case (Cons p ps)
  obtain y dx where p: "p = (y, dx)" by (cases p)
  have fin: "is_Finite y" "is_Finite dx" "finite_pairs ps"
    using Cons.prems(2) by (simp_all add: p finite_pairs_def)
  have rep: "representable (valof y * valof dx)"
    "representable (valof (h i) - valof y * valof dx)"
    "euler_no_rounding (integrate_euler_exact (\<lambda>a. valof (h a)) i (valof y) (valof dx) y_old) i y_old
       (values_of ps)"
    using Cons.prems(3) by (simp_all add: p values_of_def)
  note step = integrate_euler_no_rounding
    [where h = h and i = i and y_old = y_old, OF Cons.prems(1) fin(1,2) rep(1,2)]
  have "is_Finite (euler_steps (integrate_euler h i y dx y_old) i y_old ps i) \<and>
      (\<lambda>a. valof (euler_steps (integrate_euler h i y dx y_old) i y_old ps a)) =
      euler_steps_exact (\<lambda>a. valof (integrate_euler h i y dx y_old a)) i y_old (values_of ps)"
    using step(1) fin(3) rep(3) unfolding step(2) [symmetric] by (rule Cons.IH)
  then show ?case by (simp add: p values_of_def step(2))
qed

lemma integrate_trapez_no_rounding:
  assumes "i \<noteq> y_old" "is_Finite (h i)" "is_Finite (h y_old)" "is_Finite y" "is_Finite dx"
    "representable (valof y + valof (h y_old))"
    "representable ((valof y + valof (h y_old)) / 2)"
    "representable ((valof y + valof (h y_old)) / 2 * valof dx)"
    "representable (valof (h i) - (valof y + valof (h y_old)) / 2 * valof dx)"
  shows "is_Finite (integrate_trapez h i y dx y_old i)"
    and "integrate_trapez h i y dx y_old y_old = y"
    and "(\<lambda>a. valof (integrate_trapez h i y dx y_old a)) =
      integrate_trapez_exact (\<lambda>a. valof (h a)) i (valof y) (valof dx) y_old"
proof -
  have a: "is_Finite (fadd y (h y_old)) \<and> valof (fadd y (h y_old)) = valof y + valof (h y_old)"
    using assms(4,3,6) by (rule fadd_representable)
  then have af: "is_Finite (fadd y (h y_old))"
    and av: "valof (fadd y (h y_old)) = valof y + valof (h y_old)" by simp_all
  have "representable (valof (fadd y (h y_old)) / 2)"
    unfolding av by (rule assms(7))
  with af have "is_Finite (fdiv (fadd y (h y_old)) two) \<and>
      valof (fdiv (fadd y (h y_old)) two) = valof (fadd y (h y_old)) / 2"
    by (rule fdiv_two_representable)
  then have bf: "is_Finite (fdiv (fadd y (h y_old)) two)"
    and bv: "valof (fdiv (fadd y (h y_old)) two) = (valof y + valof (h y_old)) / 2"
    unfolding av by simp_all
  have "representable (valof (fdiv (fadd y (h y_old)) two) * valof dx)"
    unfolding bv by (rule assms(8))
  with bf assms(5) have "is_Finite (fmul (fdiv (fadd y (h y_old)) two) dx) \<and>
      valof (fmul (fdiv (fadd y (h y_old)) two) dx) =
        valof (fdiv (fadd y (h y_old)) two) * valof dx"
    by (rule fmul_representable)
  then have cf: "is_Finite (fmul (fdiv (fadd y (h y_old)) two) dx)"
    and cv: "valof (fmul (fdiv (fadd y (h y_old)) two) dx) =
      (valof y + valof (h y_old)) / 2 * valof dx"
    unfolding bv by simp_all
  have "representable (valof (h i) - valof (fmul (fdiv (fadd y (h y_old)) two) dx))"
    unfolding cv by (rule assms(9))
  with assms(2) cf have "is_Finite (fsub (h i) (fmul (fdiv (fadd y (h y_old)) two) dx)) \<and>
      valof (fsub (h i) (fmul (fdiv (fadd y (h y_old)) two) dx)) =
        valof (h i) - valof (fmul (fdiv (fadd y (h y_old)) two) dx)"
    by (rule fsub_representable)
  then have rf: "is_Finite (fsub (h i) (fmul (fdiv (fadd y (h y_old)) two) dx))"
    and rv: "valof (fsub (h i) (fmul (fdiv (fadd y (h y_old)) two) dx)) =
      valof (h i) - (valof y + valof (h y_old)) / 2 * valof dx"
    unfolding cv by simp_all
  show "is_Finite (integrate_trapez h i y dx y_old i)"
    using rf assms(1) by (simp add: integrate_trapez_def)
  show "integrate_trapez h i y dx y_old y_old = y"
    by (simp add: integrate_trapez_def)
  show "(\<lambda>a. valof (integrate_trapez h i y dx y_old a)) =
      integrate_trapez_exact (\<lambda>a. valof (h a)) i (valof y) (valof dx) y_old"
    using rv assms(1)
    by (simp add: integrate_trapez_def integrate_trapez_exact_def fun_eq_iff)
qed

lemma trapez_steps_no_rounding:
  assumes "i \<noteq> y_old"
  shows "is_Finite (h i) \<Longrightarrow> is_Finite (h y_old) \<Longrightarrow> finite_pairs ps \<Longrightarrow>
   trapez_no_rounding (\<lambda>a. valof (h a)) i y_old (values_of ps) \<Longrightarrow>
   is_Finite (trapez_steps h i y_old ps i) \<and>
   (\<lambda>a. valof (trapez_steps h i y_old ps a)) = trapez_steps_exact (\<lambda>a. valof (h a)) i y_old (values_of ps)"
proof (induction ps arbitrary: h)
  case Nil
  then show ?case by (simp add: values_of_def)
next
  case (Cons p ps)
  obtain y dx where p: "p = (y, dx)" by (cases p)
  have fin: "is_Finite y" "is_Finite dx" "finite_pairs ps"
    using Cons.prems(3) by (simp_all add: p finite_pairs_def)
  have rep: "representable (valof y + valof (h y_old))"
    "representable ((valof y + valof (h y_old)) / 2)"
    "representable ((valof y + valof (h y_old)) / 2 * valof dx)"
    "representable (valof (h i) - (valof y + valof (h y_old)) / 2 * valof dx)"
    "trapez_no_rounding (integrate_trapez_exact (\<lambda>a. valof (h a)) i (valof y) (valof dx) y_old) i y_old
       (values_of ps)"
    using Cons.prems(4) by (simp_all add: p values_of_def)
  note step = integrate_trapez_no_rounding
    [where h = h and i = i and y_old = y_old, OF assms Cons.prems(1,2) fin(1,2) rep(1-4)]
  have old: "is_Finite (integrate_trapez h i y dx y_old y_old)"
    using fin(1) by (simp add: step(2))
  have "is_Finite (trapez_steps (integrate_trapez h i y dx y_old) i y_old ps i) \<and>
      (\<lambda>a. valof (trapez_steps (integrate_trapez h i y dx y_old) i y_old ps a)) =
      trapez_steps_exact (\<lambda>a. valof (integrate_trapez h i y dx y_old a)) i y_old
        (values_of ps)"
    using step(1) old fin(3) rep(5) unfolding step(3) [symmetric] by (rule Cons.IH)
  then show ?case by (simp add: p values_of_def step(3))
qed

lemma euler_no_rounding_constant:
  "representable (c * d) \<Longrightarrow> \<forall>k\<le>n. representable (h i - real k * c * d) \<Longrightarrow>
   euler_no_rounding h i y_old (replicate n (c, d))"
proof (induction n arbitrary: h)
  case 0
  show ?case by simp
next
  case (Suc n)
  have one: "representable (h i - c * d)"
    using Suc.prems(2) [rule_format, of 1] by simp
  have "\<forall>k\<le>n. representable (integrate_euler_exact h i c d y_old i - real k * c * d)"
  proof (intro allI impI)
    fix k assume "k \<le> n"
    then have "representable (h i - real (Suc k) * c * d)"
      using Suc.prems(2) [rule_format, of "Suc k"] by simp
    then show "representable (integrate_euler_exact h i c d y_old i - real k * c * d)"
      by (simp add: integrate_euler_exact_def algebra_simps)
  qed
  with Suc.prems(1) have "euler_no_rounding (integrate_euler_exact h i c d y_old) i y_old
      (replicate n (c, d))"
    by (rule Suc.IH)
  then show ?case using Suc.prems(1) one by simp
qed

lemma values_of_replicate: "values_of (replicate n (c, d)) = replicate n (valof c, valof d)"
  by (simp add: values_of_def)

lemma finite_pairs_replicate:
  "is_Finite c \<Longrightarrow> is_Finite d \<Longrightarrow> finite_pairs (replicate n (c, d))"
  by (simp add: finite_pairs_def list_all_length)

section \<open>Repeated calls with a constant sample\<close>

lemma euler_steps_exact_constant:
  "euler_steps_exact h i y_old (replicate n (c, d)) i = h i - real n * c * d"
  by (simp add: euler_steps_exact_sum sum_list_replicate)

text \<open>
  C4 fails in the arithmetic of \<open>double\<close>, where every call rounds: from the accumulator
  \<open>- 2 ^ 53\<close>, two Euler calls with sample \<open>1.\<close> and step \<open>1.\<close> leave \<open>- 2 ^ 53\<close> (each
  difference \<open>- 2 ^ 53 - 1\<close> rounds back), not \<open>- 2 ^ 53 - 2\<close>, which is a double and is what
  \<open>a0 - n * c * d\<close> is, computed in \<open>double\<close> or in the real numbers.
\<close>

theorem euler_steps_rounding_counterexample:
  "euler_steps (blank(0 := minus_two_53)) 0 1 (replicate 2 (one, one)) 0 \<noteq>
     fsub minus_two_53 (fmul (fmul two one) one) \<and>
   valof (euler_steps (blank(0 := minus_two_53)) 0 1 (replicate 2 (one, one)) 0) \<noteq>
     valof minus_two_53 - 2 * valof one * valof one"
  by (simp add: replicate_2 integrate_euler_def one_times_one two_times_one
      minus_two_53_minus_one minus_two_53_minus_two valof_some)
     (simp add: minus_two_53_def)

text \<open>
  C4, amended. When the product \<open>c * d\<close> and every partial result \<open>a0 - k * c * d\<close>,
  \<open>k \<le> n\<close>, are representable, so that no operation of the run rounds or overflows, \<open>n\<close>
  Euler calls with the finite sample \<open>c\<close> and the finite step \<open>d\<close> take the finite
  accumulator \<open>a0\<close> to \<open>a0 - n * c * d\<close>, in the arithmetic of \<open>double\<close>; so from \<open>0.\<close>, five
  calls with sample \<open>2.\<close> and step \<open>1.\<close> leave \<open>- 10.\<close>.
\<close>

theorem euler_steps_constant:
  assumes "is_Finite (h i)" "is_Finite c" "is_Finite d"
    "representable (valof c * valof d)"
    "\<forall>k\<le>n. representable (valof (h i) - real k * valof c * valof d)"
  shows "is_Finite (euler_steps h i y_old (replicate n (c, d)) i) \<and>
    valof (euler_steps h i y_old (replicate n (c, d)) i) =
      valof (h i) - real n * valof c * valof d \<and>
    euler_steps (g(j := zero False)) j z_old (replicate 5 (two, one)) j = fneg ten \<and>
    valof (fneg ten) = - 10"
proof -
  have five: "euler_steps (g(j := zero False)) j z_old (replicate 5 (two, one)) j = fneg ten"
    by (simp add: replicate_5 integrate_euler_def two_times_one zero_minus_two
        minus_two_minus_two minus_four_minus_two minus_six_minus_two minus_eight_minus_two)
  have "euler_no_rounding (\<lambda>a. valof (h a)) i y_old (values_of (replicate n (c, d)))"
    unfolding values_of_replicate using assms(4,5)
    by (intro euler_no_rounding_constant) simp_all
  with assms(1) finite_pairs_replicate [OF assms(2,3)]
  have "is_Finite (euler_steps h i y_old (replicate n (c, d)) i) \<and>
      (\<lambda>a. valof (euler_steps h i y_old (replicate n (c, d)) a)) =
      euler_steps_exact (\<lambda>a. valof (h a)) i y_old (values_of (replicate n (c, d)))"
    by (rule euler_steps_no_rounding)
  then have "is_Finite (euler_steps h i y_old (replicate n (c, d)) i)"
    and "valof (euler_steps h i y_old (replicate n (c, d)) i) =
      euler_steps_exact (\<lambda>a. valof (h a)) i y_old (replicate n (valof c, valof d)) i"
    by (simp_all add: fun_eq_iff values_of_replicate)
  then show ?thesis using five by (simp add: euler_steps_exact_constant valof_minus_ten)
qed

text \<open>From \<open>1.\<close>, two calls with sample \<open>3.\<close> and step \<open>0.5\<close>: through \<open>- 0.5\<close> to \<open>- 2.\<close>.\<close>

theorem euler_steps_constant_witness:
  "is_Finite ((blank(0 := one)) 0) \<and> is_Finite three \<and> is_Finite half \<and>
   representable (valof three * valof half) \<and>
   representable (valof ((blank(0 := one)) 0) - real 0 * valof three * valof half) \<and>
   representable (valof ((blank(0 := one)) 0) - real 1 * valof three * valof half) \<and>
   representable (valof ((blank(0 := one)) 0) - real 2 * valof three * valof half) \<and>
   is_Finite (euler_steps (blank(0 := one)) 0 1 (replicate 2 (three, half)) 0) \<and>
   valof (euler_steps (blank(0 := one)) 0 1 (replicate 2 (three, half)) 0) =
     valof ((blank(0 := one)) 0) - real 2 * valof three * valof half"
proof -
  have a: "is_Finite ((blank(0 := one)) 0)" by (simp add: one_def)
  have b: "is_Finite three" by (simp add: three_def)
  have c: "is_Finite half" by (simp add: half_def)
  have d: "representable (valof three * valof half)"
    by (simp add: named_values representable_some)
  have r: "representable (valof ((blank(0 := one)) 0) - real 0 * valof three * valof half)"
    "representable (valof ((blank(0 := one)) 0) - real 1 * valof three * valof half)"
    "representable (valof ((blank(0 := one)) 0) - real 2 * valof three * valof half)"
    by (simp_all add: named_values representable_some)
  have e: "\<forall>k\<le>2. representable (valof ((blank(0 := one)) 0) - real k * valof three * valof half)"
  proof (intro allI impI)
    fix k :: nat
    assume "k \<le> 2"
    then have "k = 0 \<or> k = 1 \<or> k = 2" by auto
    then show "representable (valof ((blank(0 := one)) 0) - real k * valof three * valof half)"
      using r by auto
  qed
  show ?thesis
    using euler_steps_constant
      [where h = "blank(0 := one)" and i = 0 and c = three and d = half and n = 2
         and y_old = 1 and g = blank and j = 0 and z_old = 1, OF a b c d e]
      a b c d r by blast
qed

text \<open>
  C5 fails where \<open>c + c\<close> overflows: from the accumulator \<open>0.\<close>, one call with sample
  \<open>DBL_MAX\<close>, step \<open>1.\<close> and \<open>*y_old\<close> seeded with \<open>DBL_MAX\<close> leaves \<open>- \<infinity>\<close> under the
  trapezoidal text and \<open>- DBL_MAX\<close> under the Euler text.
\<close>

theorem trapez_overflow_counterexample:
  "trapez_steps (blank(1 := dbl_max)) 0 1 (replicate 1 (dbl_max, one)) 0 = Infinity True \<and>
   euler_steps (blank(1 := dbl_max)) 0 1 (replicate 1 (dbl_max, one)) 0 = fneg dbl_max \<and>
   trapez_steps (blank(1 := dbl_max)) 0 1 (replicate 1 (dbl_max, one)) 0 \<noteq>
     euler_steps (blank(1 := dbl_max)) 0 1 (replicate 1 (dbl_max, one)) 0"
  by (simp add: integrate_trapez_def integrate_euler_def blank_def dbl_max_plus_dbl_max
      infinity_half infinity_times_one zero_minus_infinity dbl_max_times_one zero_minus_dbl_max)
     (simp add: dbl_max_def)

lemma integrate_trapez_constant:
  assumes "well_formed c" "is_Finite (fadd c c)" "i \<noteq> y_old" "h y_old = c"
  shows "integrate_trapez h i c d y_old = integrate_euler h i c d y_old"
proof -
  have "fdiv (fadd c (h y_old)) two = c"
    using assms(1,2,4) by (simp add: fadd_self_half)
  then show ?thesis
    using assms(3,4) by (auto simp add: integrate_trapez_def integrate_euler_def fun_eq_iff)
qed

lemma constant_sample_stores_agree:
  assumes "well_formed c" "is_Finite (fadd c c)" "i \<noteq> y_old" "h y_old = c"
  shows "trapez_steps h i y_old (replicate n (c, d)) = euler_steps h i y_old (replicate n (c, d))"
  using assms(4)
proof (induction n arbitrary: h)
  case 0
  show ?case by simp
next
  case (Suc n)
  have "integrate_euler h i c d y_old y_old = c"
    using assms(3) Suc.prems by (simp add: integrate_euler_def)
  then show ?case
    using Suc.IH [of "integrate_euler h i c d y_old"] Suc.prems assms(1-3)
    by (simp add: integrate_trapez_constant)
qed

text \<open>
  C5, amended. When \<open>i\<close> and \<open>y_old\<close> are different addresses, \<open>*y_old\<close> is seeded with \<open>c\<close>
  and \<open>c + c\<close> does not overflow, \<open>n\<close> trapezoidal calls with sample \<open>c\<close> and step \<open>d\<close> leave
  exactly the accumulator that \<open>n\<close> Euler calls leave, in the arithmetic of \<open>double\<close>; from
  \<open>0.\<close>, five calls with sample \<open>2.\<close>, step \<open>1.\<close> and seed \<open>2.\<close> leave \<open>- 10.\<close>.
\<close>

theorem trapez_steps_constant:
  assumes "well_formed c" "is_Finite (fadd c c)" "i \<noteq> y_old" "h y_old = c"
  shows "trapez_steps h i y_old (replicate n (c, d)) i =
      euler_steps h i y_old (replicate n (c, d)) i \<and>
    trapez_steps (g(i := zero False, y_old := two)) i y_old (replicate 5 (two, one)) i = fneg ten"
proof -
  have "trapez_steps (g(i := zero False, y_old := two)) i y_old (replicate 5 (two, one)) =
      euler_steps (g(i := zero False, y_old := two)) i y_old (replicate 5 (two, one))"
    using assms(3) by (intro constant_sample_stores_agree) (simp_all add: well_formed_some
        two_plus_two four_def)
  moreover have
    "euler_steps (g(i := zero False, y_old := two)) i y_old (replicate 5 (two, one)) i = fneg ten"
    using assms(3)
    by (simp add: replicate_5 integrate_euler_def two_times_one zero_minus_two
        minus_two_minus_two minus_four_minus_two minus_six_minus_two minus_eight_minus_two)
  ultimately show ?thesis
    using assms by (simp add: constant_sample_stores_agree)
qed

theorem trapez_steps_constant_witness:
  "well_formed two \<and> is_Finite (fadd two two) \<and> (0::addr) \<noteq> 1 \<and> (blank(1 := two)) 1 = two \<and>
   trapez_steps (blank(1 := two)) 0 1 (replicate 5 (two, one)) 0 =
     euler_steps (blank(1 := two)) 0 1 (replicate 5 (two, one)) 0 \<and>
   trapez_steps (blank(0 := zero False, 1 := two)) 0 1 (replicate 5 (two, one)) 0 = fneg ten"
proof -
  have a: "well_formed two" by (rule well_formed_some)
  have b: "is_Finite (fadd two two)" by (simp add: two_plus_two four_def)
  show ?thesis
    using trapez_steps_constant
      [where c = two and i = 0 and y_old = 1 and h = "blank(1 := two)" and n = 5 and d = one
         and g = blank]
      a b by simp
qed

section \<open>A linear signal\<close>

text \<open>The closed form is the integral: it is 0 over an empty interval and its derivative is \<open>f\<close>.\<close>

lemma linear_integral_deriv:
  "((\<lambda>t. linear_integral \<alpha> \<beta> t0 t) has_real_derivative \<alpha> + \<beta> * t) (at t)"
  unfolding linear_integral_def
  by (auto intro!: derivative_eq_intros simp: field_simps)

lemma linear_integral_start: "linear_integral \<alpha> \<beta> t0 t0 = 0"
  by (simp add: linear_integral_def)

lemma linear_integral_split:
  "linear_integral \<alpha> \<beta> t0 t1 + linear_integral \<alpha> \<beta> t1 t2 = linear_integral \<alpha> \<beta> t0 t2"
  by (simp add: linear_integral_def algebra_simps diff_divide_distrib)

lemma sum_linear_samples:
  "(\<Sum>(y, dx)\<leftarrow>linear_samples \<alpha> \<beta> t ds. y * dx) =
     linear_integral \<alpha> \<beta> t (t + sum_list ds) + \<beta> / 2 * (\<Sum>d\<leftarrow>ds. d\<^sup>2)"
proof (induction ds arbitrary: t)
  case Nil
  show ?case by (simp add: linear_integral_start)
next
  case (Cons d ds)
  have "(\<alpha> + \<beta> * (t + d)) * d = linear_integral \<alpha> \<beta> t (t + d) + \<beta> / 2 * d\<^sup>2"
    by (simp add: linear_integral_def power2_eq_square field_simps)
  then show ?case
    using linear_integral_split [of \<alpha> \<beta> t "t + d" "t + d + sum_list ds"]
    by (simp add: Cons.IH algebra_simps)
qed

lemma trapez_steps_exact_linear:
  assumes "i \<noteq> y_old"
  shows "h y_old = \<alpha> + \<beta> * t \<Longrightarrow>
    trapez_steps_exact h i y_old (linear_samples \<alpha> \<beta> t ds) i =
      h i - linear_integral \<alpha> \<beta> t (t + sum_list ds)"
proof (induction ds arbitrary: h t)
  case Nil
  show ?case by (simp add: linear_integral_start)
next
  case (Cons d ds)
  define h' where "h' = integrate_trapez_exact h i (\<alpha> + \<beta> * (t + d)) d y_old"
  have old: "h' y_old = \<alpha> + \<beta> * (t + d)"
    by (simp add: h'_def integrate_trapez_exact_def)
  have "h' i = h i - (\<alpha> + \<beta> * (t + d) + (\<alpha> + \<beta> * t)) / 2 * d"
    using assms Cons.prems by (simp add: h'_def integrate_trapez_exact_def)
  also have "\<dots> = h i - linear_integral \<alpha> \<beta> t (t + d)"
    by (simp add: linear_integral_def power2_eq_square algebra_simps)
  finally have acc: "h' i = h i - linear_integral \<alpha> \<beta> t (t + d)" .
  have "trapez_steps_exact h i y_old (linear_samples \<alpha> \<beta> t (d # ds)) i =
      trapez_steps_exact h' i y_old (linear_samples \<alpha> \<beta> (t + d) ds) i"
    by (simp add: h'_def)
  also have "\<dots> = h' i - linear_integral \<alpha> \<beta> (t + d) (t + d + sum_list ds)"
    using old by (rule Cons.IH)
  finally show ?case
    using linear_integral_split [of \<alpha> \<beta> t "t + d" "t + d + sum_list ds"]
    by (simp add: acc algebra_simps)
qed

lemma trapez_error_exact:
  assumes "i \<noteq> y_old" "h y_old = \<alpha> + \<beta> * (t0 + d)"
  shows "trapez_steps_exact h i y_old (linear_samples \<alpha> \<beta> t0 (d # ds)) i -
      (h i - linear_integral \<alpha> \<beta> t0 (t0 + sum_list (d # ds))) = - (\<beta> / 2 * d\<^sup>2)"
proof -
  define h' where "h' = integrate_trapez_exact h i (\<alpha> + \<beta> * (t0 + d)) d y_old"
  have old: "h' y_old = \<alpha> + \<beta> * (t0 + d)"
    by (simp add: h'_def integrate_trapez_exact_def)
  have "h' i = h i - (\<alpha> + \<beta> * (t0 + d) + (\<alpha> + \<beta> * (t0 + d))) / 2 * d"
    using assms by (simp add: h'_def integrate_trapez_exact_def)
  also have "\<dots> = h i - linear_integral \<alpha> \<beta> t0 (t0 + d) - \<beta> / 2 * d\<^sup>2"
    by (simp add: linear_integral_def power2_eq_square algebra_simps)
  finally have acc: "h' i = h i - linear_integral \<alpha> \<beta> t0 (t0 + d) - \<beta> / 2 * d\<^sup>2" .
  have "trapez_steps_exact h i y_old (linear_samples \<alpha> \<beta> t0 (d # ds)) i =
      trapez_steps_exact h' i y_old (linear_samples \<alpha> \<beta> (t0 + d) ds) i"
    by (simp add: h'_def)
  also have "\<dots> = h' i - linear_integral \<alpha> \<beta> (t0 + d) (t0 + d + sum_list ds)"
    using assms(1) old by (rule trapez_steps_exact_linear)
  finally show ?thesis
    using linear_integral_split [of \<alpha> \<beta> t0 "t0 + d" "t0 + d + sum_list ds"]
    by (simp add: acc algebra_simps)
qed

lemma euler_error_exact:
  "euler_steps_exact h i y_old (linear_samples \<alpha> \<beta> t0 ds) i -
      (h i - linear_integral \<alpha> \<beta> t0 (t0 + sum_list ds)) = - (\<beta> / 2 * (\<Sum>d\<leftarrow>ds. d\<^sup>2))"
  by (simp add: euler_steps_exact_sum sum_linear_samples)

text \<open>
  Over exact real arithmetic, with each sample taken at the end of its step, \<open>i\<close> and \<open>y_old\<close>
  different addresses and \<open>*y_old\<close> seeded with the first sample, the accumulator after the
  trapezoidal calls is no farther from the starting accumulator minus the integral of \<open>f\<close>
  than the accumulator after the Euler calls: the distances are \<open>\<bar>\<beta>\<bar> / 2 * d1\<^sup>2\<close> and
  \<open>\<bar>\<beta>\<bar> / 2 * (d1\<^sup>2 + \<dots> + dn\<^sup>2)\<close>.
\<close>

lemma exact_trapez_error_le_euler:
  assumes "i \<noteq> y_old" "h y_old = \<alpha> + \<beta> * (t0 + d)"
  shows "\<bar>trapez_steps_exact h i y_old (linear_samples \<alpha> \<beta> t0 (d # ds)) i -
        (h i - linear_integral \<alpha> \<beta> t0 (t0 + sum_list (d # ds)))\<bar>
      \<le> \<bar>euler_steps_exact h i y_old (linear_samples \<alpha> \<beta> t0 (d # ds)) i -
        (h i - linear_integral \<alpha> \<beta> t0 (t0 + sum_list (d # ds)))\<bar>"
proof -
  have rest: "0 \<le> (\<Sum>d\<leftarrow>ds. d\<^sup>2)"
    by (rule sum_list_nonneg) auto
  then have "\<bar>\<beta> / 2\<bar> * d\<^sup>2 \<le> \<bar>\<beta> / 2\<bar> * (d\<^sup>2 + (\<Sum>d\<leftarrow>ds. d\<^sup>2))"
    by (intro mult_left_mono) auto
  moreover have "\<bar>d\<^sup>2 + (\<Sum>d\<leftarrow>ds. d\<^sup>2)\<bar> = d\<^sup>2 + (\<Sum>d\<leftarrow>ds. d\<^sup>2)"
    using rest by (intro abs_of_nonneg) auto
  ultimately have "\<bar>\<beta> / 2 * d\<^sup>2\<bar> \<le> \<bar>\<beta> / 2 * (\<Sum>d\<leftarrow>d # ds. d\<^sup>2)\<bar>"
    by (simp only: abs_mult abs_power2 list.map sum_list.Cons)
  moreover have "trapez_steps_exact h i y_old (linear_samples \<alpha> \<beta> t0 (d # ds)) i -
      (h i - linear_integral \<alpha> \<beta> t0 (t0 + sum_list (d # ds))) = - (\<beta> / 2 * d\<^sup>2)"
    using assms by (rule trapez_error_exact)
  ultimately show ?thesis
    by (simp only: euler_error_exact abs_minus)
qed

text \<open>
  C7 fails in the arithmetic of \<open>double\<close>, where the operations round. The signal
  \<open>f t = (2 ^ 54 - 5) + t\<close> observed from \<open>t = 0\<close> at the ends of two steps of sizes \<open>1.\<close> and
  \<open>2.\<close> has the samples \<open>2 ^ 54 - 4\<close> and \<open>2 ^ 54 - 2\<close>, and its integral over the three units
  is \<open>3 * 2 ^ 54 - 10.5\<close>. From the accumulator \<open>0.\<close>, with \<open>*y_old\<close> seeded with the first
  sample, the second trapezoidal call rounds the sum \<open>2 ^ 55 - 6\<close> to \<open>2 ^ 55 - 8\<close> and the
  difference \<open>- (3 * 2 ^ 54 - 12)\<close> to \<open>- (3 * 2 ^ 54 - 16)\<close>, at distance \<open>5.5\<close> from the
  integral; no operation of the Euler calls rounds and they end in \<open>- (3 * 2 ^ 54 - 8)\<close>, at
  distance \<open>2.5\<close>. Nothing overflows.
\<close>

theorem trapez_worse_than_euler_counterexample:
  "values_of [(two_54_less_4, one), (two_54_less_2, two)] =
     linear_samples (2 ^ 54 - 5) 1 0 [1, 2] \<and>
   trapez_steps (blank(1 := two_54_less_4)) 0 1
       [(two_54_less_4, one), (two_54_less_2, two)] 0 =
     Finite True 6755399441055742 3 \<and>
   euler_steps (blank(1 := two_54_less_4)) 0 1
       [(two_54_less_4, one), (two_54_less_2, two)] 0 =
     Finite True 6755399441055743 3 \<and>
   \<bar>valof (trapez_steps (blank(1 := two_54_less_4)) 0 1
       [(two_54_less_4, one), (two_54_less_2, two)] 0) -
     (valof (blank 0) - linear_integral (2 ^ 54 - 5) 1 0 (0 + sum_list [1, 2]))\<bar> = 11 / 2 \<and>
   \<bar>valof (euler_steps (blank(1 := two_54_less_4)) 0 1
       [(two_54_less_4, one), (two_54_less_2, two)] 0) -
     (valof (blank 0) - linear_integral (2 ^ 54 - 5) 1 0 (0 + sum_list [1, 2]))\<bar> = 5 / 2 \<and>
   \<not> error_le
     (abs_error
       (trapez_steps (blank(1 := two_54_less_4)) 0 1
         [(two_54_less_4, one), (two_54_less_2, two)] 0)
       (valof (blank 0) - linear_integral (2 ^ 54 - 5) 1 0 (0 + sum_list [1, 2])))
     (abs_error
       (euler_steps (blank(1 := two_54_less_4)) 0 1
         [(two_54_less_4, one), (two_54_less_2, two)] 0)
       (valof (blank 0) - linear_integral (2 ^ 54 - 5) 1 0 (0 + sum_list [1, 2])))"
proof -
  have t: "trapez_steps (blank(1 := two_54_less_4)) 0 1
      [(two_54_less_4, one), (two_54_less_2, two)] 0 = Finite True 6755399441055742 3"
    by (simp add: integrate_trapez_def blank_def two_54_less_4_twice two_55_less_8_half
        two_54_less_4_times_one zero_minus_two_54_less_4 two_55_less_6_rounds
        two_54_less_4_times_two trapez_last_step_rounds)
  have e: "euler_steps (blank(1 := two_54_less_4)) 0 1
      [(two_54_less_4, one), (two_54_less_2, two)] 0 = Finite True 6755399441055743 3"
    by (simp add: integrate_euler_def blank_def two_54_less_4_times_one
        zero_minus_two_54_less_4 two_54_less_2_times_two euler_last_step_exact)
  have v: "values_of [(two_54_less_4, one), (two_54_less_2, two)] =
      linear_samples (2 ^ 54 - 5) 1 0 [1, 2]"
    by (simp add: values_of_def two_54_values named_values)
  have x: "valof (blank 0) - linear_integral (2 ^ 54 - 5) 1 0 (0 + sum_list [1, 2]) =
      - (3 * 2 ^ 54 - 21 / 2)"
    by (simp add: blank_def valof_zero linear_integral_def)
  have vt: "valof (Finite True 6755399441055742 3) = - (3 * 2 ^ 54 - 16)"
    and ve: "valof (Finite True 6755399441055743 3) = - (3 * 2 ^ 54 - 8)"
    by (simp_all add: valof_def)
  show ?thesis
    unfolding t e x by (simp add: v vt ve abs_error_def error_le_def)
qed

text \<open>
  An overflow does the same. The signal \<open>f t = (2 ^ 53 - 3) * 2 ^ 971 + 2 ^ 972 * t\<close> observed
  from \<open>t = 0\<close> in two steps of size \<open>0.5\<close> has the samples \<open>(2 ^ 53 - 2) * 2 ^ 971\<close> and
  \<open>DBL_MAX\<close>; the sum \<open>y + *y_old\<close> overflows in both trapezoidal calls and the accumulator
  ends as \<open>- \<infinity>\<close>, at no finite distance from the integral, while the Euler calls end in a
  finite number.
\<close>

lemma trapez_steps_linear_overflow:
  "valof half = 1 / 2 \<and>
   valof below_dbl_max = 9007199254740989 * 2 ^ 971 + 2 ^ 972 * (0 + 1 / 2) \<and>
   valof dbl_max = 9007199254740989 * 2 ^ 971 + 2 ^ 972 * (0 + 1 / 2 + 1 / 2) \<and>
   trapez_steps (blank(1 := below_dbl_max)) 0 1 [(below_dbl_max, half), (dbl_max, half)] 0 =
     Infinity True \<and>
   euler_steps (blank(1 := below_dbl_max)) 0 1 [(below_dbl_max, half), (dbl_max, half)] 0 =
     Finite True 9007199254740990 971 \<and>
   \<not> error_le
     (abs_error
       (trapez_steps (blank(1 := below_dbl_max)) 0 1 [(below_dbl_max, half), (dbl_max, half)] 0)
       (valof (blank 0) - linear_integral (9007199254740989 * 2 ^ 971) (2 ^ 972) 0 1))
     (abs_error
       (euler_steps (blank(1 := below_dbl_max)) 0 1 [(below_dbl_max, half), (dbl_max, half)] 0)
       (valof (blank 0) - linear_integral (9007199254740989 * 2 ^ 971) (2 ^ 972) 0 1))"
proof -
  have t: "trapez_steps (blank(1 := below_dbl_max)) 0 1
      [(below_dbl_max, half), (dbl_max, half)] 0 = Infinity True"
    by (simp add: integrate_trapez_def blank_def below_dbl_max_twice dbl_max_plus_below
        infinity_half infinity_times_half zero_minus_infinity minus_infinity_minus_infinity)
  have e: "euler_steps (blank(1 := below_dbl_max)) 0 1
      [(below_dbl_max, half), (dbl_max, half)] 0 = Finite True 9007199254740990 971"
    by (simp add: integrate_euler_def blank_def below_dbl_max_times_half dbl_max_times_half
        zero_minus_below_half euler_last_step)
  have v: "valof half = 1 / 2"
    "valof below_dbl_max = 9007199254740989 * 2 ^ 971 + 2 ^ 972 * (0 + 1 / 2)"
    "valof dbl_max = 9007199254740989 * 2 ^ 971 + 2 ^ 972 * (0 + 1 / 2 + 1 / 2)"
    by (simp_all add: valof_def half_def below_dbl_max_def dbl_max_def)
  show ?thesis
    unfolding t e using v by (simp add: abs_error_def error_le_def)
qed

text \<open>
  While no operation of the trapezoidal calls rounds, the Euler accumulator stays on one
  side of the trapezoidal one, whether the Euler calls round, overflow or do neither:
  each Euler product is not below (for \<open>\<beta> \<ge> 0\<close>) the trapezoidal one before it is rounded,
  and rounding keeps the order.
\<close>

lemma euler_at_most_trapez:
  assumes "i \<noteq> y_old" "0 \<le> \<beta>"
  shows "finite_pairs ps \<Longrightarrow> values_of ps = linear_samples \<alpha> \<beta> t ds \<Longrightarrow>
    hT y_old = \<alpha> + \<beta> * t \<Longrightarrow> trapez_no_rounding hT i y_old (values_of ps) \<Longrightarrow>
    at_most (hE i) (hT i) \<Longrightarrow>
    at_most (euler_steps hE i y_old ps i) (trapez_steps_exact hT i y_old (values_of ps) i)"
proof (induction ps arbitrary: hE hT t ds)
  case Nil
  then show ?case by (simp add: values_of_def)
next
  case (Cons p ps)
  obtain y dx where p: "p = (y, dx)" by (cases p)
  obtain d ds' where ds: "ds = d # ds'"
    using Cons.prems(2) by (cases ds) (simp_all add: values_of_def)
  have vy: "valof y = \<alpha> + \<beta> * (t + d)" and vd: "valof dx = d"
    and rest: "values_of ps = linear_samples \<alpha> \<beta> (t + d) ds'"
    using Cons.prems(2) by (simp_all add: p ds values_of_def)
  have fin: "is_Finite y" "is_Finite dx" "finite_pairs ps"
    using Cons.prems(1) by (simp_all add: p finite_pairs_def)
  define P where "P = (valof y + hT y_old) / 2 * valof dx"
  define hT' where "hT' = integrate_trapez_exact hT i (valof y) (valof dx) y_old"
  have rep: "representable P" "representable (hT i - P)"
    "trapez_no_rounding hT' i y_old (values_of ps)"
    using Cons.prems(4) by (simp_all add: p values_of_def P_def hT'_def)
  have "valof y * valof dx - P = \<beta> / 2 * d\<^sup>2"
    unfolding P_def vy vd Cons.prems(3) by (simp add: power2_eq_square field_simps)
  moreover have "0 \<le> \<beta> / 2 * d\<^sup>2" using assms(2) by simp
  ultimately have "P \<le> valof y * valof dx" by linarith
  with fin(1,2) rep(1) have "at_least (fmul y dx) P" by (rule fmul_at_least)
  with Cons.prems(5) have "at_most (fsub (hE i) (fmul y dx)) (hT i - P)"
    using rep(2) by (rule fsub_at_most)
  then have acc: "at_most (integrate_euler hE i y dx y_old i) (hT' i)"
    using assms(1) by (simp add: integrate_euler_def hT'_def integrate_trapez_exact_def P_def)
  have old: "hT' y_old = \<alpha> + \<beta> * (t + d)"
    by (simp add: hT'_def integrate_trapez_exact_def vy)
  have "at_most (euler_steps (integrate_euler hE i y dx y_old) i y_old ps i)
      (trapez_steps_exact hT' i y_old (values_of ps) i)"
    using fin(3) rest old rep(3) acc by (rule Cons.IH)
  then show ?case by (simp add: p values_of_def hT'_def)
qed

lemma euler_at_least_trapez:
  assumes "i \<noteq> y_old" "\<beta> \<le> 0"
  shows "finite_pairs ps \<Longrightarrow> values_of ps = linear_samples \<alpha> \<beta> t ds \<Longrightarrow>
    hT y_old = \<alpha> + \<beta> * t \<Longrightarrow> trapez_no_rounding hT i y_old (values_of ps) \<Longrightarrow>
    at_least (hE i) (hT i) \<Longrightarrow>
    at_least (euler_steps hE i y_old ps i) (trapez_steps_exact hT i y_old (values_of ps) i)"
proof (induction ps arbitrary: hE hT t ds)
  case Nil
  then show ?case by (simp add: values_of_def)
next
  case (Cons p ps)
  obtain y dx where p: "p = (y, dx)" by (cases p)
  obtain d ds' where ds: "ds = d # ds'"
    using Cons.prems(2) by (cases ds) (simp_all add: values_of_def)
  have vy: "valof y = \<alpha> + \<beta> * (t + d)" and vd: "valof dx = d"
    and rest: "values_of ps = linear_samples \<alpha> \<beta> (t + d) ds'"
    using Cons.prems(2) by (simp_all add: p ds values_of_def)
  have fin: "is_Finite y" "is_Finite dx" "finite_pairs ps"
    using Cons.prems(1) by (simp_all add: p finite_pairs_def)
  define P where "P = (valof y + hT y_old) / 2 * valof dx"
  define hT' where "hT' = integrate_trapez_exact hT i (valof y) (valof dx) y_old"
  have rep: "representable P" "representable (hT i - P)"
    "trapez_no_rounding hT' i y_old (values_of ps)"
    using Cons.prems(4) by (simp_all add: p values_of_def P_def hT'_def)
  have "valof y * valof dx - P = \<beta> / 2 * d\<^sup>2"
    unfolding P_def vy vd Cons.prems(3) by (simp add: power2_eq_square field_simps)
  moreover have "\<beta> / 2 * d\<^sup>2 \<le> 0"
    using assms(2) by (simp add: mult_nonpos_nonneg)
  ultimately have "valof y * valof dx \<le> P" by linarith
  with fin(1,2) rep(1) have "at_most (fmul y dx) P" by (rule fmul_at_most)
  with Cons.prems(5) have "at_least (fsub (hE i) (fmul y dx)) (hT i - P)"
    using rep(2) by (rule fsub_at_least)
  then have acc: "at_least (integrate_euler hE i y dx y_old i) (hT' i)"
    using assms(1) by (simp add: integrate_euler_def hT'_def integrate_trapez_exact_def P_def)
  have old: "hT' y_old = \<alpha> + \<beta> * (t + d)"
    by (simp add: hT'_def integrate_trapez_exact_def vy)
  have "at_least (euler_steps (integrate_euler hE i y dx y_old) i y_old ps i)
      (trapez_steps_exact hT' i y_old (values_of ps) i)"
    using fin(3) rest old rep(3) acc by (rule Cons.IH)
  then show ?case by (simp add: p values_of_def hT'_def)
qed

text \<open>
  C7, amended. For every signal \<open>f t = \<alpha> + \<beta> * t\<close>, every starting time, every non-empty
  list of finite step sizes and every finite starting accumulator, with each sample the
  value of \<open>f\<close> at the end of its step, \<open>i\<close> and \<open>y_old\<close> different addresses and \<open>*y_old\<close>
  seeded with the first sample: when no operation of the trapezoidal calls rounds or
  overflows (the exact result of each is representable), the final trapezoidal accumulator
  is finite and no farther from the starting accumulator minus the integral of \<open>f\<close> than
  the final Euler accumulator, in the arithmetic of \<open>double\<close>. The Euler calls may round;
  an Euler accumulator that is not finite counts as farther than every finite one.
\<close>

theorem trapez_no_worse_than_euler:
  assumes "i \<noteq> y_old" "is_Finite (h i)" "h y_old = y" "finite_pairs ((y, dx) # ps)"
    "values_of ((y, dx) # ps) = linear_samples \<alpha> \<beta> t0 (d # ds)"
    "trapez_no_rounding (\<lambda>a. valof (h a)) i y_old (linear_samples \<alpha> \<beta> t0 (d # ds))"
  shows "is_Finite (trapez_steps h i y_old ((y, dx) # ps) i) \<and>
    error_le
      (abs_error (trapez_steps h i y_old ((y, dx) # ps) i)
        (valof (h i) - linear_integral \<alpha> \<beta> t0 (t0 + sum_list (d # ds))))
      (abs_error (euler_steps h i y_old ((y, dx) # ps) i)
        (valof (h i) - linear_integral \<alpha> \<beta> t0 (t0 + sum_list (d # ds)))) \<and>
    (is_Finite (euler_steps h i y_old ((y, dx) # ps) i) \<longrightarrow>
      \<bar>valof (trapez_steps h i y_old ((y, dx) # ps) i) -
        (valof (h i) - linear_integral \<alpha> \<beta> t0 (t0 + sum_list (d # ds)))\<bar>
      \<le> \<bar>valof (euler_steps h i y_old ((y, dx) # ps) i) -
        (valof (h i) - linear_integral \<alpha> \<beta> t0 (t0 + sum_list (d # ds)))\<bar>)"
proof -
  define x where "x = valof (h i) - linear_integral \<alpha> \<beta> t0 (t0 + sum_list (d # ds))"
  define T where "T = trapez_steps h i y_old ((y, dx) # ps) i"
  define E where "E = euler_steps h i y_old ((y, dx) # ps) i"
  define hT where "hT = integrate_trapez_exact (\<lambda>a. valof (h a)) i (valof y) (valof dx) y_old"
  have old: "is_Finite (h y_old)"
    using assms(3,4) by (simp add: finite_pairs_def)
  have fin: "is_Finite y" "is_Finite dx" "finite_pairs ps"
    using assms(4) by (simp_all add: finite_pairs_def)
  have vy: "valof y = \<alpha> + \<beta> * (t0 + d)" and vd: "valof dx = d"
    and rest: "values_of ps = linear_samples \<alpha> \<beta> (t0 + d) ds"
    using assms(5) by (simp_all add: values_of_def)
  have seed: "valof (h y_old) = \<alpha> + \<beta> * (t0 + d)"
    using assms(3) vy by simp
  have "is_Finite (trapez_steps h i y_old ((y, dx) # ps) i) \<and>
      (\<lambda>a. valof (trapez_steps h i y_old ((y, dx) # ps) a)) =
      trapez_steps_exact (\<lambda>a. valof (h a)) i y_old (values_of ((y, dx) # ps))"
    using assms(1,2) old assms(4) assms(6) [folded assms(5)]
    by (rule trapez_steps_no_rounding)
  then have tf: "is_Finite T"
    and tv: "valof T =
      trapez_steps_exact (\<lambda>a. valof (h a)) i y_old (linear_samples \<alpha> \<beta> t0 (d # ds)) i"
    unfolding assms(5) T_def by (simp_all add: fun_eq_iff)
  have tx: "valof T - x = - (\<beta> / 2 * d\<^sup>2)"
    unfolding tv x_def
    using trapez_error_exact [where h = "\<lambda>a. valof (h a)", OF assms(1) seed] .
  have tv': "valof T = trapez_steps_exact hT i y_old (values_of ps) i"
    unfolding tv hT_def by (simp add: rest vy vd)
  have "trapez_no_rounding (\<lambda>a. valof (h a)) i y_old ((valof y, valof dx) # values_of ps)"
    using assms(6) [folded assms(5)] by (simp add: values_of_def)
  then have steps: "representable ((valof y + valof (h y_old)) / 2 * valof dx) \<and>
      representable (valof (h i) - (valof y + valof (h y_old)) / 2 * valof dx) \<and>
      trapez_no_rounding hT i y_old (values_of ps)"
    by (simp only: trapez_no_rounding.simps hT_def)
  have same: "(valof y + valof (h y_old)) / 2 * valof dx = valof y * valof dx"
    using assms(3) by simp
  have rep: "representable (valof y * valof dx)"
    "representable (valof (h i) - valof y * valof dx)"
    "trapez_no_rounding hT i y_old (values_of ps)"
    using steps unfolding same by blast+
  note first = integrate_euler_no_rounding
    [where h = h and i = i and y_old = y_old, OF assms(2) fin(1,2) rep(1,2)]
  have acc: "valof (integrate_euler h i y dx y_old i) = hT i"
    using fun_cong [OF first(2), of i] assms(1) seed vy
    by (simp add: hT_def integrate_euler_exact_def integrate_trapez_exact_def)
  have hold: "hT y_old = \<alpha> + \<beta> * (t0 + d)"
    by (simp add: hT_def integrate_trapez_exact_def vy)
  have E: "E = euler_steps (integrate_euler h i y dx y_old) i y_old ps i"
    by (simp add: E_def)
  have le: "error_le (abs_error T x) (abs_error E x) \<and>
      (is_Finite E \<longrightarrow> \<bar>valof T - x\<bar> \<le> \<bar>valof E - x\<bar>)"
  proof (cases "0 \<le> \<beta>")
    case True
    have "at_most (integrate_euler h i y dx y_old i) (hT i)"
      using first(1) acc by (simp add: at_most_def)
    with assms(1) True fin(3) rest hold rep(3)
    have "at_most E (valof T)"
      unfolding E tv' by (rule euler_at_most_trapez)
    moreover have "0 \<le> \<beta> / 2 * d\<^sup>2" using True by simp
    then have "valof T \<le> x" using tx by linarith
    ultimately show ?thesis
      using tf by (auto simp add: at_most_def abs_error_def error_le_def)
  next
    case False
    then have neg: "\<beta> \<le> 0" by simp
    have "at_least (integrate_euler h i y dx y_old i) (hT i)"
      using first(1) acc by (simp add: at_least_def)
    with assms(1) neg fin(3) rest hold rep(3)
    have "at_least E (valof T)"
      unfolding E tv' by (rule euler_at_least_trapez)
    moreover have "0 \<le> - (\<beta> / 2 * d\<^sup>2)" using neg by (simp add: mult_nonpos_nonneg)
    then have "x \<le> valof T" using tx by linarith
    ultimately show ?thesis
      using tf by (auto simp add: at_least_def abs_error_def error_le_def)
  qed
  show ?thesis
    using tf le unfolding T_def E_def x_def by blast
qed

text \<open>
  The signal \<open>f t = t\<close> from \<open>t = 0\<close> in two steps of size \<open>1.\<close>, from the accumulator \<open>3.\<close>:
  samples \<open>1.\<close> and \<open>2.\<close>; the trapezoidal calls end in \<open>0.5\<close> and the Euler calls in \<open>0.\<close>,
  the integral is 2.
\<close>

theorem trapez_no_worse_than_euler_witness:
  "(0::addr) \<noteq> 1 \<and> is_Finite ((blank(0 := three, 1 := one)) 0) \<and>
   (blank(0 := three, 1 := one)) 1 = one \<and>
   finite_pairs [(one, one), (two, one)] \<and>
   values_of [(one, one), (two, one)] = linear_samples 0 1 0 [1, 1] \<and>
   trapez_no_rounding (\<lambda>a. valof ((blank(0 := three, 1 := one)) a)) 0 1
     (linear_samples 0 1 0 [1, 1]) \<and>
   is_Finite (trapez_steps (blank(0 := three, 1 := one)) 0 1 [(one, one), (two, one)] 0) \<and>
   is_Finite (euler_steps (blank(0 := three, 1 := one)) 0 1 [(one, one), (two, one)] 0) \<and>
   \<bar>valof (trapez_steps (blank(0 := three, 1 := one)) 0 1 [(one, one), (two, one)] 0) -
        (valof ((blank(0 := three, 1 := one)) 0) -
          linear_integral 0 1 0 (0 + sum_list [1, 1]))\<bar>
      \<le> \<bar>valof (euler_steps (blank(0 := three, 1 := one)) 0 1 [(one, one), (two, one)] 0) -
        (valof ((blank(0 := three, 1 := one)) 0) -
          linear_integral 0 1 0 (0 + sum_list [1, 1]))\<bar>"
proof -
  have a: "(0::addr) \<noteq> 1" by simp
  have b: "is_Finite ((blank(0 := three, 1 := one)) 0)" by (simp add: three_def)
  have c: "(blank(0 := three, 1 := one)) 1 = one" by simp
  have d: "finite_pairs [(one, one), (two, one)]"
    by (simp add: finite_pairs_def one_def two_def)
  have e: "values_of [(one, one), (two, one)] = linear_samples 0 1 0 [1, 1]"
    by (simp add: values_of_def named_values)
  have f: "trapez_no_rounding (\<lambda>a. valof ((blank(0 := three, 1 := one)) a)) 0 1
      (linear_samples 0 1 0 [1, 1])"
    by (simp add: integrate_trapez_exact_def named_values representable_some)
  have g: "is_Finite (euler_steps (blank(0 := three, 1 := one)) 0 1 [(one, one), (two, one)] 0)"
    by (simp add: integrate_euler_def one_times_one three_minus_one two_times_one two_minus_two)
      (simp add: zero_def)
  show ?thesis
    using trapez_no_worse_than_euler
      [where i = 0 and y_old = 1 and h = "blank(0 := three, 1 := one)" and y = one
         and dx = one and ps = "[(two, one)]" and \<alpha> = 0 and \<beta> = 1 and ?t0.0 = 0 and d = 1
         and ds = "[1]", OF a b c d e f]
      a b c d e f g by blast
qed

text \<open>
  Where the samples are taken matters. With each sample taken at the start of its step
  (\<open>f t = 1 + t\<close> from \<open>t = 0\<close>, two steps of size \<open>1.\<close>, samples \<open>1.\<close> and \<open>2.\<close>, integral 4) and
  the accumulator starting at \<open>4.\<close>, no operation rounds, the trapezoidal calls end in \<open>1.5\<close>
  and the Euler calls in \<open>1.\<close>, while the starting accumulator minus the integral is 0.
\<close>

lemma start_of_step_samples:
  "values_of [(one, one), (two, one)] = [(1 + 1 * 0, 1), (1 + 1 * (0 + 1), 1)] \<and>
   trapez_steps (blank(0 := four, 1 := one)) 0 1 [(one, one), (two, one)] 0 =
     Finite False (3 * 2 ^ 51) (- 52) \<and>
   euler_steps (blank(0 := four, 1 := one)) 0 1 [(one, one), (two, one)] 0 = one \<and>
   valof ((blank(0 := four, 1 := one)) 0) - linear_integral 1 1 0 (0 + 1 + 1) = 0 \<and>
   valof (Finite False (3 * 2 ^ 51) (- 52)) = 3 / 2 \<and> valof one = 1"
  by (simp add: values_of_def named_values integrate_trapez_def integrate_euler_def
      linear_integral_def valof_def arith_eval)

end
